theory Spec2Isabelle
  imports Complex_Main "HOL-Library.Word" "HOL-Library.Monad_Syntax" "HOL-Library.Multiset"
begin

section \<open>The zlog hashtable (libzlog/zc\_hashtable.c)\<close>

text \<open>
  A shallow embedding of \<^verbatim>\<open>src/libzlog/zc_hashtable.c\<close>: a separate-chaining hashtable
  whose buckets are doubly linked chains of heap-allocated entries.

  Conventions of the embedding.
  \<^item> A pointer to an entry is an \<open>addr option\<close>: \<open>None\<close> is \<^verbatim>\<open>NULL\<close>. Entry records live
    in an explicit store \<open>ents\<close>, a map from addresses to records; an address outside
    its domain is not allocated.
  \<^item> Functions that dereference pointers, index the bucket array or divide return an
    \<open>option\<close>: \<open>None\<close> stands for undefined behaviour of the C code (a dangling
    pointer, an index outside the array, a division by zero) and for a loop that does
    not terminate. Theorems that claim a result prove that it is \<open>Some\<close>.
  \<^item> \<^verbatim>\<open>unsigned int\<close> is \<open>32 word\<close>. \<^verbatim>\<open>size_t\<close> (\<open>nelem\<close>, \<open>tab_size\<close>, array indices) is
    \<open>nat\<close>: a table never holds \<open>2^61\<close> buckets or entries of eight bytes or more
    in a 64-bit address space, so these counters do not wrap.
  \<^item> \<^verbatim>\<open>calloc\<close> may fail: its outcome is a parameter of the operation that calls it.
  \<^item> Keys and values are opaque pointers. A key is a value of type \<open>'k\<close> (the object
    pointed to), a key argument is a \<open>'k option\<close> with \<open>None\<close> for \<^verbatim>\<open>NULL\<close>;
    a value is a \<open>'v option\<close>.
  \<^item> The table pointer itself is always valid (the branch of
    \<^verbatim>\<open>zc_assert(a_table, ...)\<close> that rejects a null table is not modelled), and
    \<^verbatim>\<open>zc_error\<close> only writes a diagnostic, so it is omitted.
\<close>

subsection \<open>String keys: \<^verbatim>\<open>zc_hashtable_str_hash\<close>\<close>

text \<open>
  \<^verbatim>\<open>(unsigned int)(*p++)\<close> converts a plain \<^verbatim>\<open>char\<close>. C leaves the signedness of
  \<^verbatim>\<open>char\<close> to the implementation: where it is signed (x86 and x86-64 System V) the
  conversion sign-extends, where it is unsigned (ARM) it zero-extends.
\<close>

definition char_to_uint :: "bool \<Rightarrow> 8 word \<Rightarrow> 32 word" where
  "char_to_uint char_signed c = (if char_signed then scast c else ucast c)"

text \<open>
  The string is the list of bytes from the pointer on. \<^verbatim>\<open>*p++\<close> reads the first and
  moves to the rest; reading past the end of the memory is undefined (\<open>None\<close>).
\<close>

fun str_hash_loop :: "bool \<Rightarrow> 32 word \<Rightarrow> 8 word list \<Rightarrow> 32 word option" where
  "str_hash_loop char_signed h [] = None"
| "str_hash_loop char_signed h (c # p) =
     (if c \<noteq> 0 then str_hash_loop char_signed (h * 129 + char_to_uint char_signed c) p
      else Some h)"

definition zc_hashtable_str_hash :: "bool \<Rightarrow> 8 word list \<Rightarrow> 32 word option" where
  "zc_hashtable_str_hash char_signed str = str_hash_loop char_signed 0 str"

text \<open>
  The accumulator as the specification words it: \<open>h = h * 129 + b\<close> on natural
  numbers, reduced modulo \<open>2^32\<close> at every step.
\<close>

fun spec_accumulate :: "nat \<Rightarrow> nat list \<Rightarrow> nat" where
  "spec_accumulate h [] = h"
| "spec_accumulate h (b # bs) = spec_accumulate ((h * 129 + b) mod 2 ^ 32) bs"

text \<open>
  The number a byte contributes: its value \<open>0..255\<close>, except that a byte of \<open>128\<close>
  or more read through a signed \<^verbatim>\<open>char\<close> is negative and contributes
  \<open>b - 256\<close> modulo \<open>2^32\<close>.
\<close>

definition char_value :: "bool \<Rightarrow> 8 word \<Rightarrow> nat" where
  "char_value char_signed c =
     (if char_signed \<and> 128 \<le> unat c then 2 ^ 32 - 256 + unat c else unat c)"

subsection \<open>Data model\<close>

type_synonym addr = nat

record ('k, 'v) zc_hashtable_entry =
  hash_key :: "32 word"
  key :: 'k
  value_e :: "'v option"
  next_e :: "addr option"
  prev :: "addr option"

text \<open>A call of a configured destructor, as recorded in the order the calls are made.\<close>

datatype ('k, 'v) del_call = Key_del 'k | Value_del "'v option"

text \<open>
  The fields of \<^verbatim>\<open>zc_hashtable_t\<close>, followed by the two parts of the program state the
  table works on: the store of its entry records and the record of destructor calls.
  \<open>key_del_fn\<close> and \<open>value_del_fn\<close> say whether the function pointer is non-null.
\<close>

record ('k, 'v) zc_hashtable =
  nelem :: nat
  tab :: "addr option list"
  tab_size :: nat
  hash_fn :: "'k \<Rightarrow> 32 word"
  equal_fn :: "'k \<Rightarrow> 'k \<Rightarrow> bool"
  key_del_fn :: bool
  value_del_fn :: bool
  ents :: "addr \<rightharpoonup> ('k, 'v) zc_hashtable_entry"
  del_log :: "('k, 'v) del_call list"

subsection \<open>Primitive steps\<close>

definition zc_assert :: "bool \<Rightarrow> 'r \<Rightarrow> 'r \<Rightarrow> 'r" where
  \<comment> \<open>Modelled from the spec: the macro \<^verbatim>\<open>zc_assert(expr, rv)\<close> is declared in
      \<^verbatim>\<open>zc_defs.h\<close>, which is not among the sources. By section 4.1 (\<open>New\<close> fails if
      the capacity is zero or a required function is absent) a false \<open>expr\<close> makes the
      calling function return \<open>rv\<close> at once; otherwise the function continues.\<close>
  "zc_assert expr rv continue = (if expr then continue else rv)"

definition tab_at :: "addr option list \<Rightarrow> nat \<Rightarrow> addr option option" where
  \<comment> \<open>\<^verbatim>\<open>(a_table->tab)[i]\<close>\<close>
  "tab_at tb i = (if i < length tb then Some (tb ! i) else None)"

definition tab_set :: "addr option list \<Rightarrow> nat \<Rightarrow> addr option \<Rightarrow> addr option list option" where
  \<comment> \<open>\<^verbatim>\<open>(a_table->tab)[i] = p\<close>\<close>
  "tab_set tb i p = (if i < length tb then Some (tb[i := p]) else None)"

definition bucket_of :: "32 word \<Rightarrow> nat \<Rightarrow> nat option" where
  \<comment> \<open>\<^verbatim>\<open>hash % tab_size\<close>: the hash is converted to \<^verbatim>\<open>size_t\<close>; the result is below
      \<open>2^32\<close> and fits the \<^verbatim>\<open>unsigned int\<close> it is stored in.\<close>
  "bucket_of h n = (if n = 0 then None else Some (unat h mod n))"

definition set_next ::
  "(addr \<rightharpoonup> ('k, 'v) zc_hashtable_entry) \<Rightarrow> addr \<Rightarrow> addr option \<Rightarrow>
   (addr \<rightharpoonup> ('k, 'v) zc_hashtable_entry) option" where
  \<comment> \<open>\<^verbatim>\<open>a->next = x\<close>\<close>
  "set_next h a x = (case h a of None \<Rightarrow> None | Some e \<Rightarrow> Some (h(a \<mapsto> e\<lparr>next_e := x\<rparr>)))"

definition set_prev ::
  "(addr \<rightharpoonup> ('k, 'v) zc_hashtable_entry) \<Rightarrow> addr \<Rightarrow> addr option \<Rightarrow>
   (addr \<rightharpoonup> ('k, 'v) zc_hashtable_entry) option" where
  \<comment> \<open>\<^verbatim>\<open>a->prev = x\<close>\<close>
  "set_prev h a x = (case h a of None \<Rightarrow> None | Some e \<Rightarrow> Some (h(a \<mapsto> e\<lparr>prev := x\<rparr>)))"

definition call_del_fns ::
  "('k, 'v) zc_hashtable \<Rightarrow> 'k \<Rightarrow> 'v option \<Rightarrow> ('k, 'v) zc_hashtable" where
  \<comment> \<open>\<^verbatim>\<open>if (key_del_fn) key_del_fn(p->key); if (value_del_fn) value_del_fn(p->value);\<close>\<close>
  "call_del_fns t k v =
     t\<lparr>del_log := del_log t @ (if key_del_fn t then [Key_del k] else [])
                             @ (if value_del_fn t then [Value_del v] else [])\<rparr>"

subsection \<open>Construction\<close>

text \<open>
  \<open>None\<close> is the \<^verbatim>\<open>NULL\<close> result. The two \<^verbatim>\<open>calloc\<close> outcomes are parameters. The new
  table owns no entry record and no destructor has been called.
\<close>

definition zc_hashtable_new ::
  "bool \<Rightarrow> bool \<Rightarrow> nat \<Rightarrow> ('k \<Rightarrow> 32 word) option \<Rightarrow> ('k \<Rightarrow> 'k \<Rightarrow> bool) option \<Rightarrow> bool \<Rightarrow> bool \<Rightarrow>
   ('k, 'v) zc_hashtable option" where
  "zc_hashtable_new table_calloc tab_calloc a_size hash_fn' equal_fn' key_del_fn' value_del_fn' =
     zc_assert (a_size \<noteq> 0) None
    (zc_assert (hash_fn' \<noteq> None) None
    (zc_assert (equal_fn' \<noteq> None) None
    (if \<not> table_calloc then None
     else if \<not> tab_calloc then None
     else Some \<lparr>nelem = 0, tab = replicate a_size None, tab_size = a_size,
                hash_fn = the hash_fn', equal_fn = the equal_fn',
                key_del_fn = key_del_fn', value_del_fn = value_del_fn',
                ents = Map.empty, del_log = []\<rparr>)))"

subsection \<open>Lookup\<close>

text \<open>
  The scan \<^verbatim>\<open>for (p = tab[i]; p; p = p->next) if (equal_fn(a_key, p->key)) ...\<close>, which
  \<^verbatim>\<open>zc_hashtable_get_entry\<close>, \<^verbatim>\<open>zc_hashtable_put\<close> and \<^verbatim>\<open>zc_hashtable_remove\<close> each
  contain. The result is the entry the loop stops at, or \<^verbatim>\<open>NULL\<close>.
\<close>

partial_function (option) chain_find ::
  "(addr \<rightharpoonup> ('k, 'v) zc_hashtable_entry) \<Rightarrow> ('k \<Rightarrow> 'k \<Rightarrow> bool) \<Rightarrow> 'k \<Rightarrow> addr option \<Rightarrow>
   addr option option" where
  "chain_find h eq a_key p =
     (case p of
        None \<Rightarrow> Some None
      | Some a \<Rightarrow>
          (case h a of
             None \<Rightarrow> None
           | Some e \<Rightarrow> if eq a_key (key e) then Some (Some a)
                       else chain_find h eq a_key (next_e e)))"

definition zc_hashtable_get_entry ::
  "('k, 'v) zc_hashtable \<Rightarrow> 'k option \<Rightarrow> addr option option" where
  "zc_hashtable_get_entry a_table a_key =
     zc_assert (a_key \<noteq> None) (Some None)
     (do {
        i \<leftarrow> bucket_of (hash_fn a_table (the a_key)) (tab_size a_table);
        p \<leftarrow> tab_at (tab a_table) i;
        chain_find (ents a_table) (equal_fn a_table) (the a_key) p
      })"

definition zc_hashtable_get :: "('k, 'v) zc_hashtable \<Rightarrow> 'k option \<Rightarrow> 'v option option" where
  "zc_hashtable_get a_table a_key =
     do {
       p \<leftarrow> zc_hashtable_get_entry a_table a_key;
       (case p of
          None \<Rightarrow> Some None
        | Some a \<Rightarrow> do { e \<leftarrow> ents a_table a; Some (value_e e) })
     }"

subsection \<open>Rehash\<close>

text \<open>
  The inner loop of \<^verbatim>\<open>zc_hashtable_rehash\<close> moves the chain that starts at \<open>p\<close> into
  the new bucket array \<open>tb\<close> of \<open>tab_size'\<close> buckets. The writes are made one after
  the other on the store, in the order of the source.
\<close>

partial_function (option) rehash_chain ::
  "nat \<Rightarrow> addr option \<Rightarrow> (addr \<rightharpoonup> ('k, 'v) zc_hashtable_entry) \<Rightarrow> addr option list \<Rightarrow>
   ((addr \<rightharpoonup> ('k, 'v) zc_hashtable_entry) \<times> addr option list) option" where
  "rehash_chain tab_size' p h tb =
     (case p of
        None \<Rightarrow> Some (h, tb)
      | Some a \<Rightarrow>
          do {
            e \<leftarrow> h a;
            let q = next_e e;
            h1 \<leftarrow> set_next h a None;
            h2 \<leftarrow> set_prev h1 a None;
            j \<leftarrow> bucket_of (hash_key e) tab_size';
            hd \<leftarrow> tab_at tb j;
            h4 \<leftarrow> (case hd of
                     None \<Rightarrow> Some h2
                   | Some b \<Rightarrow> do { h3 \<leftarrow> set_prev h2 b (Some a); set_next h3 a (Some b) });
            tb' \<leftarrow> tab_set tb j (Some a);
            rehash_chain tab_size' q h4 tb'
          })"

text \<open>The outer loop \<^verbatim>\<open>for (i = 0; i < a_table->tab_size; i++)\<close> over the old array.\<close>

partial_function (option) rehash_loop ::
  "('k, 'v) zc_hashtable \<Rightarrow> nat \<Rightarrow> nat \<Rightarrow> (addr \<rightharpoonup> ('k, 'v) zc_hashtable_entry) \<Rightarrow>
   addr option list \<Rightarrow> ((addr \<rightharpoonup> ('k, 'v) zc_hashtable_entry) \<times> addr option list) option" where
  "rehash_loop a_table tab_size' i h tb =
     (if i < tab_size a_table then
        do {
          p \<leftarrow> tab_at (tab a_table) i;
          (h', tb') \<leftarrow> rehash_chain tab_size' p h tb;
          rehash_loop a_table tab_size' (Suc i) h' tb'
        }
      else Some (h, tb))"

text \<open>
  The result is the return code with the table. \<open>tab_calloc\<close> says whether the
  allocation of the new bucket array succeeds.
\<close>

definition zc_hashtable_rehash ::
  "bool \<Rightarrow> ('k, 'v) zc_hashtable \<Rightarrow> (int \<times> ('k, 'v) zc_hashtable) option" where
  "zc_hashtable_rehash tab_calloc a_table =
     (let tab_size' = 2 * tab_size a_table in
      if \<not> tab_calloc then Some (- 1, a_table)
      else
        do {
          (h, tb) \<leftarrow> rehash_loop a_table tab_size' 0 (ents a_table) (replicate tab_size' None);
          Some (0, a_table\<lparr>ents := h, tab := tb, tab_size := tab_size'\<rparr>)
        })"

subsection \<open>Insertion and update\<close>

text \<open>
  Lines 218 to 230: the fresh record at address \<open>a\<close> is filled in and pushed at the
  head of its bucket.
\<close>

definition put_link ::
  "addr \<Rightarrow> 'k \<Rightarrow> 'v option \<Rightarrow> ('k, 'v) zc_hashtable \<Rightarrow> (int \<times> ('k, 'v) zc_hashtable) option" where
  "put_link a a_key a_value t =
     (let hk = hash_fn t a_key;
          h1 = (ents t)(a \<mapsto> \<lparr>hash_key = hk, key = a_key, value_e = a_value,
                               next_e = None, prev = None\<rparr>)
      in do {
        i \<leftarrow> bucket_of hk (tab_size t);
        hd \<leftarrow> tab_at (tab t) i;
        h3 \<leftarrow> (case hd of
                 None \<Rightarrow> Some h1
               | Some b \<Rightarrow> do { h2 \<leftarrow> set_prev h1 b (Some a); set_next h2 a (Some b) });
        tb' \<leftarrow> tab_set (tab t) i (Some a);
        Some (0, t\<lparr>ents := h3, tab := tb', nelem := nelem t + 1\<rparr>)
      })"

text \<open>
  The load test \<^verbatim>\<open>a_table->nelem > a_table->tab_size * 1.3\<close> is made in \<^verbatim>\<open>double\<close>. It is
  written here on the reals: for sizes below \<open>2^52\<close> both conversions are exact and
  the rounded product lies on the same side of every integer as \<open>1.3 * tab_size\<close>.

  \<open>tab_calloc\<close> is the outcome of the allocation inside the rehash (consulted only
  when a rehash is made) and \<open>p_calloc\<close> the result of \<^verbatim>\<open>calloc(1, sizeof(*p))\<close>.
\<close>

definition zc_hashtable_put ::
  "bool \<Rightarrow> addr option \<Rightarrow> ('k, 'v) zc_hashtable \<Rightarrow> 'k option \<Rightarrow> 'v option \<Rightarrow>
   (int \<times> ('k, 'v) zc_hashtable) option" where
  "zc_hashtable_put tab_calloc p_calloc a_table a_key a_value =
     zc_assert (a_key \<noteq> None) (Some (- 1, a_table))
     (do {
        i \<leftarrow> bucket_of (hash_fn a_table (the a_key)) (tab_size a_table);
        hd \<leftarrow> tab_at (tab a_table) i;
        p \<leftarrow> chain_find (ents a_table) (equal_fn a_table) (the a_key) hd;
        (case p of
           Some a \<Rightarrow>
             do {
               e \<leftarrow> ents a_table a;
               let t1 = call_del_fns a_table (key e) (value_e e);
               Some (0, t1\<lparr>ents := (ents t1)(a \<mapsto> e\<lparr>key := the a_key, value_e := a_value\<rparr>)\<rparr>)
             }
         | None \<Rightarrow>
             do {
               (rc, t1) \<leftarrow> (if real (nelem a_table) > real (tab_size a_table) * 1.3
                            then zc_hashtable_rehash tab_calloc a_table
                            else Some (0, a_table));
               if rc \<noteq> 0 then Some (- 1, t1)
               else (case p_calloc of
                       None \<Rightarrow> Some (- 1, t1)
                     | Some a \<Rightarrow> put_link a (the a_key) a_value t1)
             })
      })"

subsection \<open>Removal\<close>

definition zc_hashtable_remove ::
  "('k, 'v) zc_hashtable \<Rightarrow> 'k option \<Rightarrow> ('k, 'v) zc_hashtable option" where
  "zc_hashtable_remove a_table a_key =
     zc_assert (a_key \<noteq> None) (Some a_table)
     (do {
        i \<leftarrow> bucket_of (hash_fn a_table (the a_key)) (tab_size a_table);
        hd \<leftarrow> tab_at (tab a_table) i;
        p \<leftarrow> chain_find (ents a_table) (equal_fn a_table) (the a_key) hd;
        (case p of
           None \<Rightarrow> Some a_table
         | Some a \<Rightarrow>
             do {
               e \<leftarrow> ents a_table a;
               let t1 = call_del_fns a_table (key e) (value_e e);
               h1 \<leftarrow> (case next_e e of
                        Some n \<Rightarrow> set_prev (ents t1) n (prev e)
                      | None \<Rightarrow> Some (ents t1));
               e1 \<leftarrow> h1 a;
               (h2, tb) \<leftarrow> (case prev e1 of
                              Some b \<Rightarrow> do { h \<leftarrow> set_next h1 b (next_e e1); Some (h, tab t1) }
                            | None \<Rightarrow>
                                do {
                                  j \<leftarrow> bucket_of (hash_key e1) (tab_size t1);
                                  tb' \<leftarrow> tab_set (tab t1) j (next_e e1);
                                  Some (h1, tb')
                                });
               Some (t1\<lparr>ents := h2(a := None), tab := tb, nelem := nelem t1 - 1\<rparr>)
             })
      })"

subsection \<open>Clean\<close>

partial_function (option) clean_chain ::
  "addr option \<Rightarrow> ('k, 'v) zc_hashtable \<Rightarrow> ('k, 'v) zc_hashtable option" where
  "clean_chain p t =
     (case p of
        None \<Rightarrow> Some t
      | Some a \<Rightarrow>
          do {
            e \<leftarrow> ents t a;
            let q = next_e e;
            let t1 = call_del_fns t (key e) (value_e e);
            clean_chain q (t1\<lparr>ents := (ents t1)(a := None)\<rparr>)
          })"

partial_function (option) clean_loop ::
  "nat \<Rightarrow> ('k, 'v) zc_hashtable \<Rightarrow> ('k, 'v) zc_hashtable option" where
  "clean_loop i t =
     (if i < tab_size t then
        do {
          p \<leftarrow> tab_at (tab t) i;
          t1 \<leftarrow> clean_chain p t;
          tb' \<leftarrow> tab_set (tab t1) i None;
          clean_loop (Suc i) (t1\<lparr>tab := tb'\<rparr>)
        }
      else Some t)"

definition zc_hashtable_clean :: "('k, 'v) zc_hashtable \<Rightarrow> ('k, 'v) zc_hashtable option" where
  "zc_hashtable_clean a_table =
     do { t \<leftarrow> clean_loop 0 a_table; Some (t\<lparr>nelem := 0\<rparr>) }"

subsection \<open>Iteration\<close>

text \<open>
  In \<^verbatim>\<open>zc_hashtable_begin\<close> the body of the inner \<^verbatim>\<open>for\<close> returns \<open>p\<close> the first time it
  runs, so the inner loop comes to a test of \<^verbatim>\<open>(a_table->tab)[i]\<close>.
\<close>

partial_function (option) begin_loop ::
  "('k, 'v) zc_hashtable \<Rightarrow> nat \<Rightarrow> addr option option" where
  "begin_loop a_table i =
     (if i < tab_size a_table then
        do {
          p \<leftarrow> tab_at (tab a_table) i;
          (case p of Some a \<Rightarrow> Some (Some a) | None \<Rightarrow> begin_loop a_table (Suc i))
        }
      else Some None)"

definition zc_hashtable_begin :: "('k, 'v) zc_hashtable \<Rightarrow> addr option option" where
  "zc_hashtable_begin a_table = begin_loop a_table 0"

partial_function (option) next_loop ::
  "('k, 'v) zc_hashtable \<Rightarrow> nat \<Rightarrow> addr option option" where
  "next_loop a_table j =
     (if j < tab_size a_table then
        do {
          p \<leftarrow> tab_at (tab a_table) j;
          (case p of Some a \<Rightarrow> Some (Some a) | None \<Rightarrow> next_loop a_table (Suc j))
        }
      else Some None)"

definition zc_hashtable_next ::
  "('k, 'v) zc_hashtable \<Rightarrow> addr option \<Rightarrow> addr option option" where
  "zc_hashtable_next a_table a_entry =
     zc_assert (a_entry \<noteq> None) (Some None)
     (do {
        e \<leftarrow> ents a_table (the a_entry);
        (case next_e e of
           Some n \<Rightarrow> Some (Some n)
         | None \<Rightarrow>
             do {
               i \<leftarrow> bucket_of (hash_key e) (tab_size a_table);
               next_loop a_table (i + 1)
             })
      })"

text \<open>
  The traversal a client makes:
  \<^verbatim>\<open>for (p = zc_hashtable_begin(t); p; p = zc_hashtable_next(t, p))\<close>. The result is the
  list of the entries visited, in the order of the visits.
\<close>

partial_function (option) visit_from ::
  "('k, 'v) zc_hashtable \<Rightarrow> addr option \<Rightarrow> addr list option" where
  "visit_from a_table p =
     (case p of
        None \<Rightarrow> Some []
      | Some a \<Rightarrow>
          do {
            q \<leftarrow> zc_hashtable_next a_table (Some a);
            rest \<leftarrow> visit_from a_table q;
            Some (a # rest)
          })"

definition visit_all :: "('k, 'v) zc_hashtable \<Rightarrow> addr list option" where
  "visit_all a_table = do { p \<leftarrow> zc_hashtable_begin a_table; visit_from a_table p }"

text \<open>The unfolding equations of the loops, for evaluation on concrete tables.\<close>

declare chain_find.simps [code] rehash_chain.simps [code] rehash_loop.simps [code]
  clean_chain.simps [code] clean_loop.simps [code] begin_loop.simps [code]
  next_loop.simps [code] visit_from.simps [code]

section \<open>Well-formed tables\<close>

text \<open>
  \<open>dll h pv p as\<close>: walking the \<open>next\<close> pointers from \<open>p\<close> visits exactly the
  addresses \<open>as\<close> and ends at \<^verbatim>\<open>NULL\<close>; every record visited is allocated and its
  \<open>prev\<close> pointer leads back to the record before it (\<open>pv\<close> for the first).
\<close>

fun dll ::
  "(addr \<rightharpoonup> ('k, 'v) zc_hashtable_entry) \<Rightarrow> addr option \<Rightarrow> addr option \<Rightarrow> addr list \<Rightarrow> bool" where
  "dll h pv p [] = (p = None)"
| "dll h pv p (a # as) =
     (p = Some a \<and>
      (case h a of None \<Rightarrow> False | Some e \<Rightarrow> prev e = pv \<and> dll h (Some a) (next_e e) as))"

text \<open>
  \<open>bucket_chains t bs\<close>: the table has at least one bucket, its array has \<open>tab_size\<close> slots,
  and \<open>bs ! i\<close> is the chain of bucket \<open>i\<close>, from its head.
\<close>

definition bucket_chains :: "('k, 'v) zc_hashtable \<Rightarrow> addr list list \<Rightarrow> bool" where
  "bucket_chains t bs \<longleftrightarrow>
     0 < tab_size t \<and> length (tab t) = tab_size t \<and> length bs = tab_size t \<and>
     (\<forall>i<tab_size t. dll (ents t) None (tab t ! i) (bs ! i))"

text \<open>The two invariants of the data model, over the chains \<open>bs\<close> of the table.\<close>

definition count_inv :: "('k, 'v) zc_hashtable \<Rightarrow> addr list list \<Rightarrow> bool" where
  "count_inv t bs \<longleftrightarrow> nelem t = length (concat bs)"

definition bucket_inv :: "('k, 'v) zc_hashtable \<Rightarrow> addr list list \<Rightarrow> bool" where
  "bucket_inv t bs \<longleftrightarrow>
     (\<forall>i<length bs. \<forall>a\<in>set (bs ! i).
        \<exists>e. ents t a = Some e \<and> unat (hash_key e) mod tab_size t = i)"

definition table_inv :: "('k, 'v) zc_hashtable \<Rightarrow> addr list list \<Rightarrow> bool" where
  "table_inv t bs \<longleftrightarrow> bucket_chains t bs \<and> count_inv t bs \<and> bucket_inv t bs"

text \<open>
  The contract of the strategy functions: \<open>equal_fn\<close> is symmetric and transitive, and
  keys it judges equal have equal hashes.
\<close>

definition lawful :: "('k, 'v) zc_hashtable \<Rightarrow> bool" where
  "lawful t \<longleftrightarrow>
     (\<forall>x y. equal_fn t x y \<longrightarrow> equal_fn t y x) \<and>
     (\<forall>x y z. equal_fn t x y \<longrightarrow> equal_fn t y z \<longrightarrow> equal_fn t x z) \<and>
     (\<forall>x y. equal_fn t x y \<longrightarrow> hash_fn t x = hash_fn t y)"

text \<open>
  \<open>keys_inv t bs\<close>: every entry caches the hash of the key it stores, and no two
  entries store keys that \<open>equal_fn\<close> judges equal.
\<close>

definition keys_inv :: "('k, 'v) zc_hashtable \<Rightarrow> addr list list \<Rightarrow> bool" where
  "keys_inv t bs \<longleftrightarrow>
     (\<forall>a\<in>set (concat bs). \<forall>e. ents t a = Some e \<longrightarrow> hash_key e = hash_fn t (key e)) \<and>
     (\<forall>a\<in>set (concat bs). \<forall>b\<in>set (concat bs). \<forall>e f.
        ents t a = Some e \<longrightarrow> ents t b = Some f \<longrightarrow> equal_fn t (key e) (key f) \<longrightarrow> a = b)"

subsection \<open>Auxiliary notions\<close>

text \<open>
  \<open>home t k\<close> is the bucket a lookup of \<open>k\<close> scans; \<open>key_matches t k a\<close> says that
  the scan stops at the entry at \<open>a\<close>. \<open>buckets_ok\<close> is the structural part of
  \<open>table_inv\<close> on a store and a bucket array alone, so that it also applies to the
  array a rehash is filling. \<open>same_payload\<close> relates two states of an entry that differ
  in their links only. \<open>relink ix as bs\<close> pushes the entries \<open>as\<close>, one after the
  other, at the head of the chains \<open>bs\<close>, each into the bucket \<open>ix\<close> gives.
\<close>

definition home :: "('k, 'v) zc_hashtable \<Rightarrow> 'k \<Rightarrow> nat" where
  "home t k = unat (hash_fn t k) mod tab_size t"

definition key_matches :: "('k, 'v) zc_hashtable \<Rightarrow> 'k \<Rightarrow> addr \<Rightarrow> bool" where
  "key_matches t k a = (case ents t a of None \<Rightarrow> False | Some e \<Rightarrow> equal_fn t k (key e))"

definition buckets_ok ::
  "(addr \<rightharpoonup> ('k, 'v) zc_hashtable_entry) \<Rightarrow> addr option list \<Rightarrow> nat \<Rightarrow> addr list list \<Rightarrow> bool" where
  "buckets_ok h tb n bs \<longleftrightarrow>
     length tb = n \<and> length bs = n \<and>
     (\<forall>i<n. dll h None (tb ! i) (bs ! i)) \<and>
     (\<forall>i<n. \<forall>a\<in>set (bs ! i). \<exists>e. h a = Some e \<and> unat (hash_key e) mod n = i)"

definition same_payload ::
  "('k, 'v) zc_hashtable_entry option \<Rightarrow> ('k, 'v) zc_hashtable_entry option \<Rightarrow> bool" where
  "same_payload x y \<longleftrightarrow>
     (case x of
        None \<Rightarrow> y = None
      | Some e \<Rightarrow> (\<exists>e'. y = Some e' \<and> hash_key e' = hash_key e \<and> key e' = key e \<and>
                         value_e e' = value_e e))"

fun relink :: "(addr \<Rightarrow> nat) \<Rightarrow> addr list \<Rightarrow> addr list list \<Rightarrow> addr list list" where
  "relink ix [] bs = bs"
| "relink ix (a # as) bs = relink ix as (bs[ix a := a # bs ! ix a])"

definition rehash_ix :: "('k, 'v) zc_hashtable \<Rightarrow> addr \<Rightarrow> nat" where
  "rehash_ix t a =
     (case ents t a of None \<Rightarrow> 0 | Some e \<Rightarrow> unat (hash_key e) mod (2 * tab_size t))"

definition rehashed_chains :: "('k, 'v) zc_hashtable \<Rightarrow> addr list list \<Rightarrow> addr list list" where
  "rehashed_chains t bs = relink (rehash_ix t) (concat bs) (replicate (2 * tab_size t) [])"

definition put_chains ::
  "('k, 'v) zc_hashtable \<Rightarrow> addr list list \<Rightarrow> addr \<Rightarrow> 'k \<Rightarrow> addr list list" where
  "put_chains t bs a k =
     (if real (nelem t) > real (tab_size t) * 1.3
      then (let bs1 = rehashed_chains t bs; j = unat (hash_fn t k) mod (2 * tab_size t)
            in bs1[j := a # bs1 ! j])
      else bs[home t k := a # bs ! home t k])"

text \<open>
  \<open>put_inserted t bs a k v t'\<close>: the table \<open>t'\<close> is \<open>t\<close> (with chains \<open>bs\<close>)
  after the insertion of a new entry for \<open>k\<close> and \<open>v\<close> at the address \<open>a\<close>.
\<close>

definition put_inserted ::
  "('k, 'v) zc_hashtable \<Rightarrow> addr list list \<Rightarrow> addr \<Rightarrow> 'k \<Rightarrow> 'v option \<Rightarrow>
   ('k, 'v) zc_hashtable \<Rightarrow> bool" where
  "put_inserted t bs a k v t' \<longleftrightarrow>
     table_inv t' (put_chains t bs a k) \<and>
     tab_size t' = (if real (nelem t) > real (tab_size t) * 1.3
                    then 2 * tab_size t else tab_size t) \<and>
     nelem t' = nelem t + 1 \<and>
     set (concat (put_chains t bs a k)) = insert a (set (concat bs)) \<and>
     hd (put_chains t bs a k ! home t' k) = a \<and>
     (\<exists>e'. ents t' a = Some e' \<and> hash_key e' = hash_fn t k \<and> key e' = k \<and>
           value_e e' = v \<and> prev e' = None) \<and>
     (\<forall>x. x \<noteq> a \<longrightarrow> same_payload (ents t x) (ents t' x)) \<and>
     hash_fn t' = hash_fn t \<and> equal_fn t' = equal_fn t \<and>
     key_del_fn t' = key_del_fn t \<and> value_del_fn t' = value_del_fn t \<and>
     del_log t' = del_log t"

text \<open>
  A client that inserts the pairs of a list one after the other. Every allocation
  succeeds, and the entry records are allocated at \<open>a\<close>, \<open>a + 1\<close>, ... in this order,
  so that a larger address is a later insertion. The result is \<open>None\<close> if a Put
  fails.
\<close>

fun put_seq ::
  "('k, 'v) zc_hashtable \<Rightarrow> addr \<Rightarrow> ('k \<times> 'v) list \<Rightarrow> ('k, 'v) zc_hashtable option" where
  "put_seq t a [] = Some t"
| "put_seq t a ((k, v) # kvs) =
     (case zc_hashtable_put True (Some a) t (Some k) (Some v) of
        None \<Rightarrow> None
      | Some (rc, t') \<Rightarrow> if rc = 0 then put_seq t' (Suc a) kvs else None)"

text \<open>
  A table of \<open>n\<close> buckets with keys that are numbers, hashed to themselves and
  compared by identity (as \<^verbatim>\<open>zc_hashtable_tid_hash\<close> and \<^verbatim>\<open>zc_hashtable_tid_equal\<close> do
  with thread identifiers), both destructors configured, after the insertion of \<open>kvs\<close>.
\<close>

definition nat_table :: "nat \<Rightarrow> (nat \<times> nat) list \<Rightarrow> (nat, nat) zc_hashtable" where
  "nat_table n kvs =
     the (put_seq (the (zc_hashtable_new True True n (Some of_nat) (Some (=)) True True)) 1 kvs)"

text \<open>
  The table the same client builds with the strategy functions \<open>hf\<close> and \<open>eq\<close>:
  \<open>n\<close> buckets, both destructors configured, the pairs \<open>kvs\<close> inserted one after
  the other in entry records allocated at 1, 2, ...
\<close>

definition client_table ::
  "('k \<Rightarrow> 32 word) \<Rightarrow> ('k \<Rightarrow> 'k \<Rightarrow> bool) \<Rightarrow> nat \<Rightarrow> ('k \<times> 'v) list \<Rightarrow> ('k, 'v) zc_hashtable" where
  "client_table hf eq n kvs =
     the (put_seq (the (zc_hashtable_new True True n (Some hf) (Some eq) True True)) 1 kvs)"

section \<open>The string hash\<close>

lemma uint8_bound: "uint (c::8 word) < 256"
  using uint_lt2p [of c] by simp

lemma bit7_uint8: "bit (uint (c::8 word)) 7 \<longleftrightarrow> 128 \<le> uint c"
proof -
  have "0 \<le> uint c" "uint c < 256" using uint8_bound by simp_all
  then have "uint c div 128 = (if 128 \<le> uint c then 1 else 0)"
    by (auto simp: div_pos_pos_trivial intro!: int_div_pos_eq [of _ _ 1 "uint c - 128"])
  then show ?thesis by (simp add: bit_iff_odd_drop_bit drop_bit_eq_div)
qed

lemma sint8: "sint (c::8 word) = (if 128 \<le> uint c then uint c - 256 else uint c)"
proof -
  have "take_bit 8 (uint c) = uint c"
    using uint8_bound [of c] by (simp add: take_bit_int_eq_self)
  then show ?thesis
    by (simp add: sint_uint signed_take_bit_eq_take_bit_minus bit7_uint8)
qed

lemma uint_scast8:
  "uint (scast (c::8 word) :: 32 word) = (if 128 \<le> uint c then 4294967040 + uint c else uint c)"
proof -
  have b: "0 \<le> uint c" "uint c < 256" using uint8_bound by simp_all
  have "sint c mod 4294967296 = (if 128 \<le> uint c then 4294967040 + uint c else uint c)"
  proof (cases "128 \<le> uint c")
    case True
    have "(uint c - 256) mod 4294967296 = 4294967040 + uint c"
      by (rule int_mod_pos_eq [of _ _ "-1"]) (use True b in simp_all)
    with True show ?thesis by (simp only: sint8 if_True)
  next
    case False
    have "uint c mod 4294967296 = uint c"
      by (rule mod_pos_pos_trivial) (use b in simp_all)
    with False show ?thesis by (simp only: sint8 if_False)
  qed
  then show ?thesis
    by (simp only: scast_eq uint_word_of_int) simp
qed

lemma uint_ucast8: "uint (ucast (c::8 word) :: 32 word) = uint c"
proof -
  have "uint c < 4294967296" using uint8_bound [of c] by simp
  then show ?thesis by (simp add: unsigned_ucast_eq take_bit_int_eq_self)
qed

lemma unat_char_to_uint: "unat (char_to_uint sg c) = char_value sg c"
proof -
  have b: "0 \<le> uint c" "uint c < 256" using uint8_bound by simp_all
  have u: "int (unat c) = uint c" by simp
  then have k: "128 \<le> unat c \<longleftrightarrow> 128 \<le> uint c" by linarith
  have "int (unat (char_to_uint sg c)) = uint (char_to_uint sg c)" by simp
  also have "\<dots> = int (char_value sg c)"
    unfolding char_to_uint_def char_value_def k
    by (simp only: uint_scast8 uint_ucast8 split: if_split) (use b in \<open>auto simp: u\<close>)
  finally show ?thesis by (simp only: of_nat_eq_iff)
qed

lemma str_hash_loop_accumulates:
  "0 \<notin> set bs \<Longrightarrow>
   \<exists>h'. str_hash_loop sg h (bs @ 0 # rest) = Some h' \<and>
        unat h' = spec_accumulate (unat h) (map (char_value sg) bs)"
proof (induction bs arbitrary: h)
  case Nil
  then show ?case by simp
next
  case (Cons c bs)
  have step: "unat (h * 129 + char_to_uint sg c) = (unat h * 129 + char_value sg c) mod 2 ^ 32"
    by (simp add: unat_word_ariths unat_char_to_uint mod_simps)
  from Cons.prems have "c \<noteq> 0" "0 \<notin> set bs" by auto
  with Cons.IH [of "h * 129 + char_to_uint sg c"] show ?case
    by (simp add: step)
qed

lemma char_value_plain:
  "\<not> sg \<or> unat c < 128 \<Longrightarrow> char_value sg c = unat c"
  by (auto simp: char_value_def)

text \<open>
  C8, as amended. For every byte string \<open>bs\<close> without a zero byte, followed by the
  terminator, \<^verbatim>\<open>zc_hashtable_str_hash\<close> returns the accumulator \<open>h = 0\<close>,
  \<open>h = h * 129 + v\<close> modulo \<open>2^32\<close>, where \<open>v\<close> is the value of the \<^verbatim>\<open>char\<close>
  converted to \<^verbatim>\<open>unsigned int\<close>: the byte itself where \<^verbatim>\<open>char\<close> is unsigned or the
  byte is below 128, and \<open>2^32 - 256 + b\<close> for a byte \<open>b\<close> of 128 or more where
  \<^verbatim>\<open>char\<close> is signed. So where \<^verbatim>\<open>char\<close> is unsigned, or the string is ASCII, the result
  is the accumulator over the bytes.
\<close>

theorem str_hash_polynomial:
  "0 \<notin> set bs \<Longrightarrow>
   \<exists>h. zc_hashtable_str_hash sg (bs @ 0 # rest) = Some h \<and>
       unat h = spec_accumulate 0 (map (char_value sg) bs) \<and>
       ((\<not> sg \<or> (\<forall>b\<in>set bs. unat b < 128)) \<longrightarrow> unat h = spec_accumulate 0 (map unat bs))"
proof -
  assume nz: "0 \<notin> set bs"
  from str_hash_loop_accumulates [OF nz, of sg 0 rest]
  obtain h where h: "str_hash_loop sg 0 (bs @ 0 # rest) = Some h"
    "unat h = spec_accumulate 0 (map (char_value sg) bs)" by auto
  have "map (char_value sg) bs = map unat bs" if "\<not> sg \<or> (\<forall>b\<in>set bs. unat b < 128)"
    using that by (intro map_cong refl char_value_plain) auto
  then have "(\<not> sg \<or> (\<forall>b\<in>set bs. unat b < 128)) \<longrightarrow> unat h = spec_accumulate 0 (map unat bs)"
    using h(2) by metis
  with h show ?thesis unfolding zc_hashtable_str_hash_def by blast
qed

theorem str_hash_polynomial_witness:
  "0 \<notin> set [0x61, 0xC3, 0xA9 :: 8 word] \<and>
   (\<exists>h. zc_hashtable_str_hash True ([0x61, 0xC3, 0xA9] @ 0 # [0x7A]) = Some h \<and>
        unat h = spec_accumulate 0 (map (char_value True) [0x61, 0xC3, 0xA9]))"
  using str_hash_polynomial [of "[0x61, 0xC3, 0xA9]" True "[0x7A]"] by simp

text \<open>
  C8 as stated fails where \<^verbatim>\<open>char\<close> is signed: for the one-byte string \<open>0x80\<close> the
  function returns \<open>0xFFFFFF80\<close>, while the accumulator over the byte is \<open>128\<close>.
\<close>

theorem str_hash_signed_char_counterexample:
  "zc_hashtable_str_hash True [0x80, 0] = Some 0xFFFFFF80 \<and>
   spec_accumulate 0 (map unat [0x80 :: 8 word]) = 128 \<and>
   unat (0xFFFFFF80 :: 32 word) \<noteq> 128"
  by (simp add: zc_hashtable_str_hash_def char_to_uint_def)

section \<open>Null keys\<close>

text \<open>
  C10. A null key is rejected by each entry point: \<open>GetEntry\<close> and \<open>Get\<close> return
  \<^verbatim>\<open>NULL\<close>, \<open>Put\<close> returns \<open>-1\<close> whatever the allocator would have done, \<open>Remove\<close>
  returns, and the table is the one passed in.
\<close>

theorem null_key_rejected:
  "zc_hashtable_get_entry t None = Some None \<and>
   zc_hashtable_get t None = Some None \<and>
   zc_hashtable_put tab_calloc p_calloc t None v = Some (- 1, t) \<and>
   zc_hashtable_remove t None = Some t"
  by (simp add: zc_hashtable_get_entry_def zc_hashtable_get_def zc_hashtable_put_def
      zc_hashtable_remove_def zc_assert_def)

section \<open>Chains in the store\<close>

lemma dll_None [simp]: "dll h pv None as \<longleftrightarrow> as = []"
  by (cases as) simp_all

lemma dll_Some:
  "dll h pv (Some a) as \<longleftrightarrow>
   (\<exists>e as'. as = a # as' \<and> h a = Some e \<and> prev e = pv \<and> dll h (Some a) (next_e e) as')"
  by (cases as) (auto split: option.splits)

lemma dll_head_mem: "dll h pv (Some x) as \<Longrightarrow> x \<in> set as"
  by (cases as) auto

lemma dll_allocated: "dll h pv p as \<Longrightarrow> a \<in> set as \<Longrightarrow> \<exists>e. h a = Some e"
  by (induction as arbitrary: pv p) (auto split: option.splits)

lemma dll_links_frame:
  "dll h pv p as \<Longrightarrow>
   (\<And>a e. a \<in> set as \<Longrightarrow> h a = Some e \<Longrightarrow>
      \<exists>e'. h' a = Some e' \<and> next_e e' = next_e e \<and> prev e' = prev e) \<Longrightarrow>
   dll h' pv p as"
proof (induction as arbitrary: pv p)
  case Nil
  then show ?case by simp
next
  case (Cons a as)
  from Cons.prems(1) obtain e where e: "p = Some a" "h a = Some e" "prev e = pv"
    "dll h (Some a) (next_e e) as" by (auto split: option.splits)
  from Cons.prems(2) [of a e] e obtain e' where e': "h' a = Some e'" "next_e e' = next_e e"
    "prev e' = prev e" by auto
  have "dll h' (Some a) (next_e e) as"
    by (rule Cons.IH [OF e(4)]) (use Cons.prems(2) in auto)
  with e e' show ?case by simp
qed

lemma dll_frame:
  "dll h pv p as \<Longrightarrow> (\<And>a. a \<in> set as \<Longrightarrow> h' a = h a) \<Longrightarrow> dll h' pv p as"
  by (erule dll_links_frame) simp

lemma dll_unique: "dll h pv p as \<Longrightarrow> dll h pv' p bs \<Longrightarrow> as = bs"
proof (induction as arbitrary: pv pv' p bs)
  case Nil
  then show ?case by simp
next
  case (Cons a as)
  then show ?case by (cases bs) (auto split: option.splits)
qed

lemma dll_suffix: "dll h pv p (xs @ ys) \<Longrightarrow> \<exists>pv' q. dll h pv' q ys"
  by (induction xs arbitrary: pv p) (auto split: option.splits)

lemma dll_head_notin_tail:
  assumes "dll h pv (Some a) (a # as)" shows "a \<notin> set as"
proof
  assume "a \<in> set as"
  then obtain xs ys where as: "as = xs @ a # ys" by (auto simp: in_set_conv_decomp)
  from assms obtain e where e: "h a = Some e" "dll h (Some a) (next_e e) as"
    by (auto split: option.splits)
  from dll_suffix [of h "Some a" "next_e e" xs "a # ys"] e(2) as
  obtain pv' q where "dll h pv' q (a # ys)" by auto
  with e(1) have "dll h (Some a) (next_e e) ys" by (auto split: option.splits)
  from dll_unique [OF this e(2)] as show False by simp
qed

lemma dll_distinct: "dll h pv p as \<Longrightarrow> distinct as"
proof (induction as arbitrary: pv p)
  case Nil
  then show ?case by simp
next
  case (Cons a as)
  from Cons.prems have "a \<notin> set as" using dll_head_notin_tail [of h pv a as] by simp
  moreover from Cons.prems have "distinct as"
    by (auto split: option.splits intro: Cons.IH)
  ultimately show ?case by simp
qed

lemma chain_find_dll:
  "dll h pv p as \<Longrightarrow>
   chain_find h eq k p = Some (find (\<lambda>a. eq k (key (the (h a)))) as)"
proof (induction as arbitrary: pv p)
  case Nil
  then show ?case by (simp add: chain_find.simps)
next
  case (Cons a as)
  from Cons.prems obtain e where e: "p = Some a" "h a = Some e"
    "dll h (Some a) (next_e e) as" by (auto split: option.splits)
  show ?case
    using Cons.IH [OF e(3)] e(1,2) by (subst chain_find.simps) simp
qed

lemma home_less: "0 < tab_size t \<Longrightarrow> home t k < tab_size t"
  by (simp add: home_def)

lemma chains_dll:
  "bucket_chains t bs \<Longrightarrow> i < tab_size t \<Longrightarrow> dll (ents t) None (tab t ! i) (bs ! i)"
  by (simp add: bucket_chains_def)

lemma in_concat_nth: "a \<in> set (concat bs) \<longleftrightarrow> (\<exists>i<length bs. a \<in> set (bs ! i))"
proof
  assume "a \<in> set (concat bs)"
  then obtain x where x: "x \<in> set bs" "a \<in> set x" by auto
  from x(1) obtain i where "i < length bs" "bs ! i = x" by (auto simp: in_set_conv_nth)
  with x(2) show "\<exists>i<length bs. a \<in> set (bs ! i)" by blast
next
  assume "\<exists>i<length bs. a \<in> set (bs ! i)"
  then obtain i where "i < length bs" "a \<in> set (bs ! i)" by blast
  then show "a \<in> set (concat bs)" using nth_mem [of i bs] by auto
qed

lemma chains_allocated:
  assumes "bucket_chains t bs" "a \<in> set (concat bs)"
  shows "\<exists>e. ents t a = Some e"
proof -
  from assms(2) obtain i where i: "i < length bs" "a \<in> set (bs ! i)"
    unfolding in_concat_nth by blast
  with assms(1) have "dll (ents t) None (tab t ! i) (bs ! i)" by (simp add: bucket_chains_def)
  from dll_allocated [OF this i(2)] show ?thesis .
qed

lemma find_cong_set:
  "(\<And>a. a \<in> set xs \<Longrightarrow> P a = Q a) \<Longrightarrow> find P xs = find Q xs"
  by (induction xs) auto

lemma get_entry_find:
  assumes "bucket_chains t bs"
  shows "zc_hashtable_get_entry t (Some k) = Some (find (key_matches t k) (bs ! home t k))"
proof -
  from assms have n: "0 < tab_size t" "length (tab t) = tab_size t" by (simp_all add: bucket_chains_def)
  have d: "dll (ents t) None (tab t ! home t k) (bs ! home t k)"
    using assms n by (simp add: chains_dll home_less)
  have "find (\<lambda>a. equal_fn t k (key (the (ents t a)))) (bs ! home t k)
        = find (key_matches t k) (bs ! home t k)"
  proof (rule find_cong_set)
    fix a assume "a \<in> set (bs ! home t k)"
    from dll_allocated [OF d this] obtain e where "ents t a = Some e" ..
    then show "equal_fn t k (key (the (ents t a))) = key_matches t k a"
      by (simp add: key_matches_def)
  qed
  with chain_find_dll [OF d, of "equal_fn t" k] n show ?thesis
    by (simp add: zc_hashtable_get_entry_def zc_assert_def bucket_of_def tab_at_def home_def
        home_less [unfolded home_def])
qed

lemma bucket_inv_home:
  assumes "bucket_inv t bs" "i < length bs" "a \<in> set (bs ! i)" "ents t a = Some e"
  shows "unat (hash_key e) mod tab_size t = i"
proof -
  from assms(1,2,3) obtain e' where "ents t a = Some e'" "unat (hash_key e') mod tab_size t = i"
    unfolding bucket_inv_def by blast
  with assms(4) show ?thesis by simp
qed

lemma buckets_disjoint:
  assumes "bucket_inv t bs" "i < length bs" "j < length bs" "a \<in> set (bs ! i)" "a \<in> set (bs ! j)"
  shows "i = j"
proof -
  from assms(1,2,4) obtain e where e: "ents t a = Some e" "unat (hash_key e) mod tab_size t = i"
    unfolding bucket_inv_def by blast
  from bucket_inv_home [OF assms(1,3,5) e(1)] e(2) show ?thesis by simp
qed

lemma distinct_concat_buckets:
  assumes "\<And>i. i < length bs \<Longrightarrow> distinct (bs ! i)"
    and "\<And>i j a. i < length bs \<Longrightarrow> j < length bs \<Longrightarrow> a \<in> set (bs ! i) \<Longrightarrow> a \<in> set (bs ! j) \<Longrightarrow> i = j"
  shows "distinct (concat bs)"
  using assms
proof (induction bs)
  case Nil
  then show ?case by simp
next
  case (Cons b bs)
  have 1: "distinct b" using Cons.prems(1) [of 0] by simp
  have 2: "distinct (concat bs)"
  proof (rule Cons.IH)
    fix i assume "i < length bs"
    then show "distinct (bs ! i)" using Cons.prems(1) [of "Suc i"] by simp
  next
    fix i j a assume "i < length bs" "j < length bs" "a \<in> set (bs ! i)" "a \<in> set (bs ! j)"
    then show "i = j" using Cons.prems(2) [of "Suc i" "Suc j" a] by simp
  qed
  have 3: "set b \<inter> set (concat bs) = {}"
  proof (rule ccontr)
    assume "set b \<inter> set (concat bs) \<noteq> {}"
    then obtain a j where "a \<in> set b" "j < length bs" "a \<in> set (bs ! j)"
      unfolding disjoint_iff in_concat_nth by blast
    then show False using Cons.prems(2) [of 0 "Suc j" a] by simp
  qed
  from 1 2 3 show ?case by simp
qed

lemma table_inv_distinct:
  assumes "table_inv t bs" shows "distinct (concat bs)"
proof (rule distinct_concat_buckets)
  fix i assume "i < length bs"
  with assms have "dll (ents t) None (tab t ! i) (bs ! i)"
    by (simp add: table_inv_def bucket_chains_def)
  then show "distinct (bs ! i)" by (rule dll_distinct)
next
  fix i j a assume "i < length bs" "j < length bs" "a \<in> set (bs ! i)" "a \<in> set (bs ! j)"
  moreover from assms have "bucket_inv t bs" by (simp add: table_inv_def)
  ultimately show "i = j" by (rule buckets_disjoint [rotated])
qed

lemma find_unique:
  "a \<in> set xs \<Longrightarrow> P a \<Longrightarrow> \<forall>b\<in>set xs. P b \<longrightarrow> b = a \<Longrightarrow> find P xs = Some a"
proof (induction xs)
  case Nil
  then show ?case by simp
next
  case (Cons x xs)
  show ?case
  proof (cases "P x")
    case True
    with Cons.prems(3) have "x = a" by simp
    with True show ?thesis by simp
  next
    case False
    with Cons.prems have "a \<in> set xs" by auto
    from Cons.IH [OF this Cons.prems(2)] Cons.prems(3) False show ?thesis by simp
  qed
qed

lemma find_Some_D: "find P xs = Some a \<Longrightarrow> a \<in> set xs \<and> P a"
  by (induction xs) (auto split: if_splits)

lemma find_None_D: "find P xs = None \<Longrightarrow> a \<in> set xs \<Longrightarrow> \<not> P a"
  by (induction xs) (auto split: if_splits)

text \<open>Under the contract of the strategy functions every stored key is looked up where it is.\<close>

lemma lawful_entry_home:
  assumes "table_inv t bs" "keys_inv t bs" "lawful t"
    and "a \<in> set (concat bs)" "ents t a = Some e" "equal_fn t k (key e)"
  shows "a \<in> set (bs ! home t k)"
proof -
  from assms(4) obtain i where i: "i < length bs" "a \<in> set (bs ! i)"
    unfolding in_concat_nth by blast
  from assms(1) have "bucket_inv t bs" by (simp add: table_inv_def)
  from bucket_inv_home [OF this i assms(5)] have "unat (hash_key e) mod tab_size t = i" .
  moreover from assms(2,4,5) have "hash_key e = hash_fn t (key e)"
    unfolding keys_inv_def by blast
  moreover from assms(3,6) have "hash_fn t k = hash_fn t (key e)"
    unfolding lawful_def by blast
  ultimately show ?thesis using i by (simp add: home_def)
qed

lemma lawful_get_entry:
  assumes "table_inv t bs" "keys_inv t bs" "lawful t"
    and "a \<in> set (concat bs)" "ents t a = Some e" "equal_fn t k (key e)"
  shows "zc_hashtable_get_entry t (Some k) = Some (Some a)"
proof -
  have h: "a \<in> set (bs ! home t k)" by (rule lawful_entry_home [OF assms])
  have "find (key_matches t k) (bs ! home t k) = Some a"
  proof (rule find_unique [OF h], goal_cases)
    case 1
    show "key_matches t k a" using assms(5,6) by (simp add: key_matches_def)
  next
    case 2
    show ?case
    proof (intro ballI impI)
    fix b assume b: "b \<in> set (bs ! home t k)" "key_matches t k b"
    then obtain f where f: "ents t b = Some f" "equal_fn t k (key f)"
      by (auto simp: key_matches_def split: option.splits)
    from assms(1) have "home t k < length bs"
      unfolding table_inv_def bucket_chains_def by (simp add: home_less)
    with b(1) have bc: "b \<in> set (concat bs)" unfolding in_concat_nth by blast
    from assms(3) f(2) assms(6) have "equal_fn t (key f) (key e)"
      unfolding lawful_def by blast
    with assms(2) bc assms(4) f(1) assms(5) show "b = a"
      unfolding keys_inv_def by blast
    qed
  qed
  with get_entry_find [of t bs k] assms(1) show ?thesis by (simp add: table_inv_def)
qed

section \<open>Update of an existing entry\<close>

lemma put_update:
  assumes "zc_hashtable_get_entry t (Some k) = Some (Some a)" "ents t a = Some e"
  shows "zc_hashtable_put tc pc t (Some k) v =
         Some (0, (call_del_fns t (key e) (value_e e))
                    \<lparr>ents := (ents t)(a \<mapsto> e\<lparr>key := k, value_e := v\<rparr>)\<rparr>)"
  using assms
  by (auto simp: zc_hashtable_get_entry_def zc_hashtable_put_def zc_assert_def call_del_fns_def
      split: Option.bind_splits)

lemma chains_payload_update:
  assumes "bucket_chains t bs" "ents t a = Some e"
  shows "bucket_chains (t\<lparr>ents := (ents t)(a \<mapsto> e\<lparr>key := k, value_e := v\<rparr>), del_log := l\<rparr>) bs"
proof -
  have "dll ((ents t)(a \<mapsto> e\<lparr>key := k, value_e := v\<rparr>)) None (tab t ! i) (bs ! i)"
    if "i < tab_size t" for i
    by (rule dll_links_frame [OF chains_dll [OF assms(1) that]]) (use assms(2) in auto)
  with assms(1) show ?thesis by (simp add: bucket_chains_def)
qed

section \<open>Pushing an entry at the head of a chain\<close>

lemma push_head:
  assumes "dll h1 None p as" "a \<notin> set as" "h1 a = Some e1" "prev e1 = None"
    "next_e e1 = None"
  shows "\<exists>h3. (case p of
                 None \<Rightarrow> Some h1
               | Some b \<Rightarrow> do { h2 \<leftarrow> set_prev h1 b (Some a); set_next h2 a (Some b) }) = Some h3 \<and>
              dll h3 None (Some a) (a # as) \<and>
              h3 a = Some (e1\<lparr>next_e := p\<rparr>) \<and>
              (\<forall>x. x \<noteq> a \<longrightarrow> Some x \<noteq> p \<longrightarrow> h3 x = h1 x) \<and>
              (\<forall>b. p = Some b \<longrightarrow> (\<exists>eb. h1 b = Some eb \<and> h3 b = Some (eb\<lparr>prev := Some a\<rparr>)))"
proof (cases p)
  case None
  with assms show ?thesis by simp
next
  case (Some b)
  with assms(1) obtain eb rest where b: "as = b # rest" "h1 b = Some eb" "prev eb = None"
    "dll h1 (Some b) (next_e eb) rest" by (auto simp: dll_Some)
  from assms(2) b(1) have ab: "a \<noteq> b" "a \<notin> set rest" by auto
  from assms(1) b(1) Some have "b \<notin> set rest"
    using dll_head_notin_tail [of h1 None b rest] by simp
  define h3 where "h3 = h1(b \<mapsto> eb\<lparr>prev := Some a\<rparr>, a \<mapsto> e1\<lparr>next_e := Some b\<rparr>)"
  have "dll h3 (Some b) (next_e eb) rest"
    by (rule dll_frame [OF b(4)]) (use ab \<open>b \<notin> set rest\<close> in \<open>auto simp: h3_def\<close>)
  then have "dll h3 None (Some a) (a # as)"
    using ab assms(4) by (simp add: b(1) h3_def)
  moreover have "(do { h2 \<leftarrow> set_prev h1 b (Some a); set_next h2 a (Some b) }) = Some h3"
    using ab b(2) assms(3) by (simp add: set_prev_def set_next_def h3_def)
  ultimately show ?thesis using Some ab b(2) by (auto simp: h3_def)
qed

lemma length_concat_update:
  "i < length bs \<Longrightarrow>
   length (concat (bs[i := c])) + length (bs ! i) = length (concat bs) + length c"
proof (induction bs arbitrary: i)
  case Nil
  then show ?case by simp
next
  case (Cons b bs)
  then show ?case by (cases i) auto
qed

lemma table_inv_buckets_ok:
  "table_inv t bs \<longleftrightarrow>
   0 < tab_size t \<and> buckets_ok (ents t) (tab t) (tab_size t) bs \<and> nelem t = length (concat bs)"
  by (auto simp: table_inv_def bucket_chains_def count_inv_def bucket_inv_def buckets_ok_def)

lemma same_payload_refl [simp]: "same_payload x x"
  by (simp add: same_payload_def split: option.splits)

lemma same_payload_trans: "same_payload x y \<Longrightarrow> same_payload y z \<Longrightarrow> same_payload x z"
  by (auto simp: same_payload_def split: option.splits)

lemma same_payload_SomeD:
  "same_payload (Some e) y \<Longrightarrow>
   \<exists>e'. y = Some e' \<and> hash_key e' = hash_key e \<and> key e' = key e \<and> value_e e' = value_e e"
  by (simp add: same_payload_def)

lemma buckets_ok_disjoint:
  assumes "buckets_ok h tb n bs" "i < n" "j < n" "a \<in> set (bs ! i)" "a \<in> set (bs ! j)"
  shows "i = j"
proof -
  from assms(1,2,4) obtain e where "h a = Some e" "unat (hash_key e) mod n = i"
    unfolding buckets_ok_def by blast
  moreover from assms(1,3,5) obtain e' where "h a = Some e'" "unat (hash_key e') mod n = j"
    unfolding buckets_ok_def by blast
  ultimately show ?thesis by simp
qed

lemma push_bucket:
  assumes ok: "buckets_ok h tb n bs" and n: "0 < n"
    and a: "a \<notin> set (concat bs)" "h a = Some e1" "prev e1 = None" "next_e e1 = None"
    and j: "j = unat (hash_key e1) mod n"
  shows "\<exists>h3. (case tb ! j of
                 None \<Rightarrow> Some h
               | Some b \<Rightarrow> do { h2 \<leftarrow> set_prev h b (Some a); set_next h2 a (Some b) }) = Some h3 \<and>
              buckets_ok h3 (tb[j := Some a]) n (bs[j := a # bs ! j]) \<and>
              h3 a = Some (e1\<lparr>next_e := tb ! j\<rparr>) \<and>
              (\<forall>x. x \<noteq> a \<longrightarrow> Some x \<noteq> tb ! j \<longrightarrow> h3 x = h x) \<and>
              (\<forall>b. tb ! j = Some b \<longrightarrow> (\<exists>eb. h b = Some eb \<and> h3 b = Some (eb\<lparr>prev := Some a\<rparr>)))"
proof -
  from n j have jn: "j < n" by simp
  from ok have len: "length tb = n" "length bs = n" by (simp_all add: buckets_ok_def)
  from ok jn have dj: "dll h None (tb ! j) (bs ! j)" by (simp add: buckets_ok_def)
  have notin: "a \<notin> set (bs ! i)" if "i < n" for i
    using a(1) that len unfolding in_concat_nth by auto
  from push_head [OF dj notin [OF jn] a(2,3,4)]
  obtain h3 where h3:
    "(case tb ! j of
        None \<Rightarrow> Some h
      | Some b \<Rightarrow> do { h2 \<leftarrow> set_prev h b (Some a); set_next h2 a (Some b) }) = Some h3"
    "dll h3 None (Some a) (a # bs ! j)"
    "h3 a = Some (e1\<lparr>next_e := tb ! j\<rparr>)"
    "\<forall>x. x \<noteq> a \<longrightarrow> Some x \<noteq> tb ! j \<longrightarrow> h3 x = h x"
    "\<forall>b. tb ! j = Some b \<longrightarrow> (\<exists>eb. h b = Some eb \<and> h3 b = Some (eb\<lparr>prev := Some a\<rparr>))"
    by blast
  have pay: "same_payload (h x) (h3 x)" if "x \<noteq> a" for x
  proof (cases "Some x = tb ! j")
    case True
    with h3(5) obtain eb where "h x = Some eb" "h3 x = Some (eb\<lparr>prev := Some a\<rparr>)" by metis
    then show ?thesis by (simp add: same_payload_def)
  next
    case False
    with h3(4) that show ?thesis by simp
  qed
  have other: "dll h3 None (tb ! i) (bs ! i)" if i: "i < n" "i \<noteq> j" for i
  proof (rule dll_frame)
    from ok i show "dll h None (tb ! i) (bs ! i)" by (simp add: buckets_ok_def)
  next
    fix x assume x: "x \<in> set (bs ! i)"
    with notin [OF i(1)] have "x \<noteq> a" by auto
    moreover have "Some x \<noteq> tb ! j"
    proof
      assume "Some x = tb ! j"
      then have "tb ! j = Some x" by simp
      with dj have "x \<in> set (bs ! j)" by (simp add: dll_head_mem)
      from buckets_ok_disjoint [OF ok i(1) jn x this] i(2) show False by simp
    qed
    ultimately show "h3 x = h x" using h3(4) by simp
  qed
  have chains': "dll h3 None (tb[j := Some a] ! i) (bs[j := a # bs ! j] ! i)" if "i < n" for i
    using that other [of i] h3(2) len by (cases "i = j") simp_all
  have home': "\<exists>e. h3 x = Some e \<and> unat (hash_key e) mod n = i"
    if i: "i < n" "x \<in> set (bs[j := a # bs ! j] ! i)" for i x
  proof (cases "x = a")
    case True
    have "i = j"
    proof (rule ccontr)
      assume "i \<noteq> j"
      with i len have "x \<in> set (bs ! i)" by simp
      with notin [OF i(1)] True show False by simp
    qed
    with True h3(3) j show ?thesis by simp
  next
    case False
    with i len have "x \<in> set (bs ! i)" by (cases "i = j") auto
    with ok i(1) obtain e where e: "h x = Some e" "unat (hash_key e) mod n = i"
      unfolding buckets_ok_def by blast
    from pay [OF False] e(1) obtain e' where "h3 x = Some e'" "hash_key e' = hash_key e"
      by (auto dest: same_payload_SomeD)
    with e(2) show ?thesis by simp
  qed
  have "buckets_ok h3 (tb[j := Some a]) n (bs[j := a # bs ! j])"
    unfolding buckets_ok_def using len chains' home' by simp
  with h3 show ?thesis by blast
qed

section \<open>Relinking\<close>

declare set_concat [simp del]

lemma length_relink [simp]: "length (relink ix as bs) = length bs"
  by (induction as arbitrary: bs) simp_all

lemma relink_append: "relink ix (xs @ ys) bs = relink ix ys (relink ix xs bs)"
  by (induction xs arbitrary: bs) simp_all

lemma relink_nth:
  "\<forall>a\<in>set as. ix a < length bs \<Longrightarrow> j < length bs \<Longrightarrow>
   relink ix as bs ! j = rev (filter (\<lambda>a. ix a = j) as) @ bs ! j"
proof (induction as arbitrary: bs)
  case Nil
  then show ?case by simp
next
  case (Cons a as)
  then show ?case by (cases "ix a = j") (simp_all add: nth_list_update)
qed

lemma set_concat_push:
  "j < length bs \<Longrightarrow> set (concat (bs[j := a # bs ! j])) = insert a (set (concat bs))"
proof (induction bs arbitrary: j)
  case Nil
  then show ?case by simp
next
  case (Cons b bs)
  then show ?case by (cases j) auto
qed

lemma set_concat_relink:
  "\<forall>a\<in>set as. ix a < length bs \<Longrightarrow>
   set (concat (relink ix as bs)) = set as \<union> set (concat bs)"
proof (induction as arbitrary: bs)
  case Nil
  then show ?case by simp
next
  case (Cons a as)
  from Cons.prems have "\<forall>x\<in>set as. ix x < length (bs[ix a := a # bs ! ix a])" by simp
  from Cons.IH [OF this] Cons.prems show ?case by (simp add: set_concat_push)
qed

lemma length_concat_relink:
  "\<forall>a\<in>set as. ix a < length bs \<Longrightarrow>
   length (concat (relink ix as bs)) = length as + length (concat bs)"
proof (induction as arbitrary: bs)
  case Nil
  then show ?case by simp
next
  case (Cons a as)
  from Cons.prems have 1: "\<forall>x\<in>set as. ix x < length (bs[ix a := a # bs ! ix a])" by simp
  from Cons.prems have "ix a < length bs" by simp
  from length_concat_update [OF this, of "a # bs ! ix a"]
  have "length (concat (bs[ix a := a # bs ! ix a])) = Suc (length (concat bs))" by simp
  with Cons.IH [OF 1] show ?case by simp
qed

lemma buckets_ok_frame:
  assumes "buckets_ok h tb n bs" "\<And>x. x \<in> set (concat bs) \<Longrightarrow> h' x = h x"
  shows "buckets_ok h' tb n bs"
proof -
  from assms(1) have len: "length bs = n" by (simp add: buckets_ok_def)
  have mem: "x \<in> set (concat bs)" if "i < n" "x \<in> set (bs ! i)" for i x
    using that len unfolding in_concat_nth by auto
  have "dll h' None (tb ! i) (bs ! i)" if "i < n" for i
  proof (rule dll_frame)
    from assms(1) that show "dll h None (tb ! i) (bs ! i)" by (simp add: buckets_ok_def)
  qed (use mem [OF that] assms(2) in auto)
  moreover have "\<exists>e. h' x = Some e \<and> unat (hash_key e) mod n = i"
    if "i < n" "x \<in> set (bs ! i)" for i x
  proof -
    from assms(1) that obtain e where "h x = Some e" "unat (hash_key e) mod n = i"
      unfolding buckets_ok_def by blast
    with assms(2) [OF mem [OF that]] show ?thesis by simp
  qed
  ultimately show ?thesis using assms(1) by (simp add: buckets_ok_def)
qed

lemma buckets_ok_head_mem:
  assumes "buckets_ok h tb n bs" "j < n" "tb ! j = Some b"
  shows "b \<in> set (concat bs)"
proof -
  from assms have "dll h None (Some b) (bs ! j)" by (auto simp: buckets_ok_def)
  then have "b \<in> set (bs ! j)" by (rule dll_head_mem)
  with assms(1,2) show ?thesis unfolding in_concat_nth buckets_ok_def by auto
qed

lemma rehash_chain_relinks:
  assumes "dll h pv p as" "buckets_ok h tb n nbs" "0 < n"
    and "set as \<inter> set (concat nbs) = {}"
    and "\<forall>a\<in>set as. \<forall>e. h a = Some e \<longrightarrow> unat (hash_key e) mod n = ix a"
  shows "\<exists>h' tb'. rehash_chain n p h tb = Some (h', tb') \<and>
           buckets_ok h' tb' n (relink ix as nbs) \<and>
           (\<forall>x. same_payload (h x) (h' x)) \<and>
           (\<forall>x. x \<notin> set as \<longrightarrow> x \<notin> set (concat nbs) \<longrightarrow> h' x = h x)"
  using assms
proof (induction as arbitrary: p pv h tb nbs)
  case Nil
  then show ?case by (subst rehash_chain.simps) simp
next
  case (Cons a as)
  from Cons.prems(1) obtain e where e: "p = Some a" "h a = Some e" "prev e = pv"
    "dll h (Some a) (next_e e) as" by (auto split: option.splits)
  from Cons.prems(1) e(1) have a_as: "a \<notin> set as"
    using dll_head_notin_tail [of h pv a as] by simp
  from Cons.prems(4) have a_new: "a \<notin> set (concat nbs)"
    and as_new: "set as \<inter> set (concat nbs) = {}" by auto
  define e0 where "e0 = e\<lparr>next_e := None, prev := None\<rparr>"
  define h2 where "h2 = h(a \<mapsto> e0)"
  define j where "j = unat (hash_key e) mod n"
  from Cons.prems(5) e(2) have j_ix: "j = ix a" by (simp add: j_def)
  from Cons.prems(3) have jn: "j < n" by (simp add: j_def)
  from Cons.prems(2) have len: "length tb = n" "length nbs = n" by (simp_all add: buckets_ok_def)
  have ok2: "buckets_ok h2 tb n nbs"
    by (rule buckets_ok_frame [OF Cons.prems(2)]) (use a_new in \<open>auto simp: h2_def\<close>)
  have "\<exists>h4. (case tb ! j of
                 None \<Rightarrow> Some h2
               | Some b \<Rightarrow> do { h3 \<leftarrow> set_prev h2 b (Some a); set_next h3 a (Some b) }) = Some h4 \<and>
              buckets_ok h4 (tb[j := Some a]) n (nbs[j := a # nbs ! j]) \<and>
              h4 a = Some (e0\<lparr>next_e := tb ! j\<rparr>) \<and>
              (\<forall>x. x \<noteq> a \<longrightarrow> Some x \<noteq> tb ! j \<longrightarrow> h4 x = h2 x) \<and>
              (\<forall>b. tb ! j = Some b \<longrightarrow> (\<exists>eb. h2 b = Some eb \<and> h4 b = Some (eb\<lparr>prev := Some a\<rparr>)))"
    by (rule push_bucket [OF ok2 Cons.prems(3) a_new])
      (simp_all add: h2_def e0_def j_def)
  then obtain h4 where h4:
    "(case tb ! j of
        None \<Rightarrow> Some h2
      | Some b \<Rightarrow> do { h3 \<leftarrow> set_prev h2 b (Some a); set_next h3 a (Some b) }) = Some h4"
    "buckets_ok h4 (tb[j := Some a]) n (nbs[j := a # nbs ! j])"
    "h4 a = Some (e0\<lparr>next_e := tb ! j\<rparr>)"
    "\<forall>x. x \<noteq> a \<longrightarrow> Some x \<noteq> tb ! j \<longrightarrow> h4 x = h2 x"
    "\<forall>b. tb ! j = Some b \<longrightarrow> (\<exists>eb. h2 b = Some eb \<and> h4 b = Some (eb\<lparr>prev := Some a\<rparr>))"
    by blast
  have head_new: "x \<in> set (concat nbs)" if "tb ! j = Some x" for x
    by (rule buckets_ok_head_mem [OF Cons.prems(2) jn that])
  have frame4: "h4 x = h x" if "x \<noteq> a" "x \<notin> set (concat nbs)" for x
  proof -
    from that(2) head_new have "Some x \<noteq> tb ! j" by metis
    with h4(4) that(1) show ?thesis by (simp add: h2_def)
  qed
  have pay4: "same_payload (h x) (h4 x)" for x
  proof (cases "x = a")
    case True
    with e(2) h4(3) show ?thesis by (simp add: same_payload_def e0_def)
  next
    case False
    show ?thesis
    proof (cases "Some x = tb ! j")
      case True
      with h4(5) obtain eb where "h2 x = Some eb" "h4 x = Some (eb\<lparr>prev := Some a\<rparr>)" by metis
      with False show ?thesis by (simp add: same_payload_def h2_def)
    next
      case F2: False
      with h4(4) False show ?thesis by (simp add: h2_def)
    qed
  qed
  have set': "set (concat (nbs[j := a # nbs ! j])) = insert a (set (concat nbs))"
    using jn len by (simp add: set_concat_push)
  have d4: "dll h4 (Some a) (next_e e) as"
  proof (rule dll_frame [OF e(4)])
    fix x assume "x \<in> set as"
    with a_as as_new have "x \<noteq> a" "x \<notin> set (concat nbs)" by auto
    then show "h4 x = h x" by (rule frame4)
  qed
  have disj4: "set as \<inter> set (concat (nbs[j := a # nbs ! j])) = {}"
    using a_as as_new by (simp add: set')
  have ix4: "\<forall>x\<in>set as. \<forall>e. h4 x = Some e \<longrightarrow> unat (hash_key e) mod n = ix x"
  proof (intro ballI allI impI)
    fix x e' assume x: "x \<in> set as" "h4 x = Some e'"
    with a_as as_new have "h4 x = h x" by (intro frame4) auto
    with x Cons.prems(5) show "unat (hash_key e') mod n = ix x" by simp
  qed
  from Cons.IH [OF d4 h4(2) Cons.prems(3) disj4 ix4]
  obtain h' tb' where r: "rehash_chain n (next_e e) h4 (tb[j := Some a]) = Some (h', tb')"
    "buckets_ok h' tb' n (relink ix as (nbs[j := a # nbs ! j]))"
    "\<forall>x. same_payload (h4 x) (h' x)"
    "\<forall>x. x \<notin> set as \<longrightarrow> x \<notin> set (concat (nbs[j := a # nbs ! j])) \<longrightarrow> h' x = h4 x"
    by blast
  have run: "rehash_chain n p h tb = Some (h', tb')"
    using e(1,2) Cons.prems(3) jn len h4(1) r(1)
    by (subst rehash_chain.simps)
      (simp add: set_next_def set_prev_def bucket_of_def tab_at_def tab_set_def
        h2_def [symmetric] e0_def [symmetric] j_def [symmetric])
  have "\<forall>x. same_payload (h x) (h' x)"
    using pay4 r(3) by (blast intro: same_payload_trans)
  moreover have "\<forall>x. x \<notin> set (a # as) \<longrightarrow> x \<notin> set (concat nbs) \<longrightarrow> h' x = h x"
    using r(4) frame4 by (simp add: set')
  ultimately show ?case using run r(2) j_ix by auto
qed

lemma rehash_loop_relinks:
  assumes "length (tab t) = tab_size t" "length bs = tab_size t"
    and "\<forall>i'. i \<le> i' \<and> i' < tab_size t \<longrightarrow> dll h None (tab t ! i') (bs ! i')"
    and "distinct (concat (drop i bs))"
    and "set (concat (drop i bs)) \<inter> set (concat nbs) = {}"
    and "\<forall>a\<in>set (concat (drop i bs)). \<forall>e. h a = Some e \<longrightarrow> unat (hash_key e) mod n = ix a"
    and "buckets_ok h tb n nbs" "0 < n"
  shows "\<exists>h' tb'. rehash_loop t n i h tb = Some (h', tb') \<and>
           buckets_ok h' tb' n (relink ix (concat (drop i bs)) nbs) \<and>
           (\<forall>x. same_payload (h x) (h' x)) \<and>
           (\<forall>x. x \<notin> set (concat (drop i bs)) \<longrightarrow> x \<notin> set (concat nbs) \<longrightarrow> h' x = h x)"
  using assms(3-7)
proof (induction "tab_size t - i" arbitrary: i h tb nbs)
  case 0
  then have "\<not> i < tab_size t" by simp
  with 0 assms(2) show ?case by (subst rehash_loop.simps) simp
next
  case (Suc k)
  from Suc.hyps(2) have i: "i < tab_size t" by simp
  define rest where "rest = concat (drop (Suc i) bs)"
  from i assms(2) have dr: "concat (drop i bs) = bs ! i @ rest"
    by (simp add: rest_def flip: Cons_nth_drop_Suc)
  from Suc.prems(1) i have di: "dll h None (tab t ! i) (bs ! i)" by simp
  from Suc.prems(2) have dist: "distinct (bs ! i)" "distinct rest" "set (bs ! i) \<inter> set rest = {}"
    by (simp_all add: dr)
  from Suc.prems(3) have disj: "set (bs ! i) \<inter> set (concat nbs) = {}"
    "set rest \<inter> set (concat nbs) = {}" by (auto simp: dr)
  from Suc.prems(4) have ixi: "\<forall>a\<in>set (bs ! i). \<forall>e. h a = Some e \<longrightarrow> unat (hash_key e) mod n = ix a"
    by (simp add: dr)
  from rehash_chain_relinks [OF di Suc.prems(5) assms(8) disj(1) ixi]
  obtain h1 tb1 where c: "rehash_chain n (tab t ! i) h tb = Some (h1, tb1)"
    "buckets_ok h1 tb1 n (relink ix (bs ! i) nbs)"
    "\<forall>x. same_payload (h x) (h1 x)"
    "\<forall>x. x \<notin> set (bs ! i) \<longrightarrow> x \<notin> set (concat nbs) \<longrightarrow> h1 x = h x"
    by blast
  have frame1: "h1 x = h x" if "x \<in> set rest" for x
    using that dist(3) disj(2) c(4) by blast
  from Suc.prems(5) have lenn: "length nbs = n" by (simp add: buckets_ok_def)
  have ixn: "\<forall>a\<in>set (bs ! i). ix a < length nbs"
  proof
    fix a assume a: "a \<in> set (bs ! i)"
    from dll_allocated [OF di a] obtain e where "h a = Some e" ..
    with ixi a have "ix a = unat (hash_key e) mod n" by simp
    with assms(8) lenn show "ix a < length nbs" by simp
  qed
  have set1: "set (concat (relink ix (bs ! i) nbs)) = set (bs ! i) \<union> set (concat nbs)"
    by (rule set_concat_relink [OF ixn])
  have p1: "\<forall>i'. Suc i \<le> i' \<and> i' < tab_size t \<longrightarrow> dll h1 None (tab t ! i') (bs ! i')"
  proof (intro allI impI)
    fix i' assume i': "Suc i \<le> i' \<and> i' < tab_size t"
    with Suc.prems(1) have d: "dll h None (tab t ! i') (bs ! i')" by simp
    show "dll h1 None (tab t ! i') (bs ! i')"
    proof (rule dll_frame [OF d])
      fix x assume "x \<in> set (bs ! i')"
      moreover from i' assms(2) have "bs ! i' \<in> set (drop (Suc i) bs)"
        by (auto simp: in_set_conv_nth intro!: exI [of _ "i' - Suc i"])
      ultimately have "x \<in> set rest" by (auto simp: rest_def set_concat)
      then show "h1 x = h x" by (rule frame1)
    qed
  qed
  have p2: "distinct (concat (drop (Suc i) bs))" using dist(2) by (simp add: rest_def)
  have p3: "set (concat (drop (Suc i) bs)) \<inter> set (concat (relink ix (bs ! i) nbs)) = {}"
    using dist(3) disj(2) by (auto simp: set1 rest_def)
  have p4: "\<forall>a\<in>set (concat (drop (Suc i) bs)). \<forall>e. h1 a = Some e \<longrightarrow>
              unat (hash_key e) mod n = ix a"
    using Suc.prems(4) frame1 by (simp add: dr rest_def)
  from Suc.hyps(2) have k: "k = tab_size t - Suc i" by simp
  from Suc.hyps(1) [OF k p1 p2 p3 p4 c(2)]
  obtain h' tb' where r: "rehash_loop t n (Suc i) h1 tb1 = Some (h', tb')"
    "buckets_ok h' tb' n (relink ix rest (relink ix (bs ! i) nbs))"
    "\<forall>x. same_payload (h1 x) (h' x)"
    "\<forall>x. x \<notin> set rest \<longrightarrow> x \<notin> set (concat (relink ix (bs ! i) nbs)) \<longrightarrow> h' x = h1 x"
    unfolding rest_def by blast
  have run: "rehash_loop t n i h tb = Some (h', tb')"
    using i assms(1) c(1) r(1) by (subst rehash_loop.simps) (simp add: tab_at_def)
  have "\<forall>x. same_payload (h x) (h' x)"
    using c(3) r(3) by (blast intro: same_payload_trans)
  moreover have "\<forall>x. x \<notin> set (concat (drop i bs)) \<longrightarrow> x \<notin> set (concat nbs) \<longrightarrow> h' x = h x"
    using r(4) c(4) by (simp add: dr set1)
  ultimately show ?case using run r(2) by (simp add: dr relink_append)
qed

lemma rehash_ix_less: "0 < tab_size t \<Longrightarrow> rehash_ix t a < 2 * tab_size t"
  by (simp add: rehash_ix_def split: option.splits)

lemma concat_replicate_Nil [simp]: "concat (replicate n []) = []"
  by (induction n) simp_all

lemma buckets_ok_empty: "buckets_ok h (replicate n None) n (replicate n [])"
  by (simp add: buckets_ok_def)

lemma rehashed_chains_nth:
  assumes "0 < tab_size t" "j < 2 * tab_size t"
  shows "rehashed_chains t bs ! j = rev (filter (\<lambda>a. rehash_ix t a = j) (concat bs))"
  unfolding rehashed_chains_def
  by (subst relink_nth) (use assms in \<open>simp_all add: rehash_ix_less\<close>)

lemma set_rehashed_chains:
  "0 < tab_size t \<Longrightarrow> set (concat (rehashed_chains t bs)) = set (concat bs)"
  unfolding rehashed_chains_def
  by (subst set_concat_relink) (simp_all add: rehash_ix_less)

lemma length_rehashed_chains:
  "0 < tab_size t \<Longrightarrow> length (concat (rehashed_chains t bs)) = length (concat bs)"
  unfolding rehashed_chains_def
  by (subst length_concat_relink) (simp_all add: rehash_ix_less)

lemma rehash_table:
  assumes "table_inv t bs"
  shows "\<exists>h' tb'. zc_hashtable_rehash True t
             = Some (0, t\<lparr>ents := h', tab := tb', tab_size := 2 * tab_size t\<rparr>) \<and>
           table_inv (t\<lparr>ents := h', tab := tb', tab_size := 2 * tab_size t\<rparr>) (rehashed_chains t bs) \<and>
           (\<forall>x. same_payload (ents t x) (h' x)) \<and>
           (\<forall>x. x \<notin> set (concat bs) \<longrightarrow> h' x = ents t x)"
proof -
  from assms have n: "0 < tab_size t" and len: "length (tab t) = tab_size t" "length bs = tab_size t"
    and cnt: "nelem t = length (concat bs)"
    and d: "\<forall>i'. 0 \<le> i' \<and> i' < tab_size t \<longrightarrow> dll (ents t) None (tab t ! i') (bs ! i')"
    by (simp_all add: table_inv_def bucket_chains_def count_inv_def)
  have dist: "distinct (concat (drop 0 bs))"
    using table_inv_distinct [OF assms] by simp
  have ix: "\<forall>a\<in>set (concat (drop 0 bs)). \<forall>e. ents t a = Some e \<longrightarrow>
              unat (hash_key e) mod (2 * tab_size t) = rehash_ix t a"
    by (simp add: rehash_ix_def)
  have n2: "0 < 2 * tab_size t" using n by simp
  from rehash_loop_relinks [OF len d dist _ ix buckets_ok_empty n2]
  obtain h' tb' where r:
    "rehash_loop t (2 * tab_size t) 0 (ents t) (replicate (2 * tab_size t) None) = Some (h', tb')"
    "buckets_ok h' tb' (2 * tab_size t) (rehashed_chains t bs)"
    "\<forall>x. same_payload (ents t x) (h' x)"
    "\<forall>x. x \<notin> set (concat bs) \<longrightarrow> h' x = ents t x"
    unfolding rehashed_chains_def by auto
  have "table_inv (t\<lparr>ents := h', tab := tb', tab_size := 2 * tab_size t\<rparr>) (rehashed_chains t bs)"
    using r(2) n cnt by (simp add: table_inv_buckets_ok length_rehashed_chains)
  with r show ?thesis by (auto simp: zc_hashtable_rehash_def)
qed

lemma rehash_loop_cong:
  assumes "tab t1 = tab t2" "tab_size t1 = tab_size t2"
  shows "rehash_loop t1 n i h tb = rehash_loop t2 n i h tb"
proof (induction "tab_size t1 - i" arbitrary: i h tb)
  case 0
  with assms show ?case by (subst (1 2) rehash_loop.simps) simp
next
  case (Suc k)
  then have "k = tab_size t1 - Suc i" by simp
  from Suc.hyps(1) [OF this]
  have "(\<lambda>(h', tb'). rehash_loop t1 n (Suc i) h' tb') = (\<lambda>(h', tb'). rehash_loop t2 n (Suc i) h' tb')"
    by auto
  with assms show ?case by (subst (1 2) rehash_loop.simps) simp
qed

lemma rehash_ignores_hash_fn:
  "zc_hashtable_rehash c (t\<lparr>hash_fn := f\<rparr>)
   = map_option (\<lambda>(rc, t'). (rc, t'\<lparr>hash_fn := f\<rparr>)) (zc_hashtable_rehash c t)"
proof -
  have "rehash_loop (t\<lparr>hash_fn := f\<rparr>) n i h tb = rehash_loop t n i h tb" for n i h tb
    by (rule rehash_loop_cong) simp_all
  then show ?thesis
    by (cases "rehash_loop t (2 * tab_size t) 0 (ents t) (replicate (2 * tab_size t) None)")
      (auto simp: zc_hashtable_rehash_def Let_def)
qed

section \<open>Insertion of a new entry\<close>

lemma put_link_table:
  assumes inv: "table_inv t bs" and fresh: "ents t a = None"
  shows "\<exists>h'. put_link a k v t
             = Some (0, t\<lparr>ents := h', tab := (tab t)[home t k := Some a], nelem := nelem t + 1\<rparr>) \<and>
           table_inv (t\<lparr>ents := h', tab := (tab t)[home t k := Some a], nelem := nelem t + 1\<rparr>)
             (bs[home t k := a # bs ! home t k]) \<and>
           h' a = Some \<lparr>hash_key = hash_fn t k, key = k, value_e = v,
                       next_e = tab t ! home t k, prev = None\<rparr> \<and>
           (\<forall>x. x \<noteq> a \<longrightarrow> same_payload (ents t x) (h' x)) \<and>
           (\<forall>x. x \<noteq> a \<longrightarrow> Some x \<noteq> tab t ! home t k \<longrightarrow> h' x = ents t x)"
proof -
  from inv have n: "0 < tab_size t" and ok: "buckets_ok (ents t) (tab t) (tab_size t) bs"
    and cnt: "nelem t = length (concat bs)" by (simp_all add: table_inv_buckets_ok)
  from ok have len: "length (tab t) = tab_size t" "length bs = tab_size t"
    by (simp_all add: buckets_ok_def)
  define e1 :: "('a, 'b) zc_hashtable_entry"
    where "e1 = \<lparr>hash_key = hash_fn t k, key = k, value_e = v, next_e = None, prev = None\<rparr>"
  define h1 where "h1 = (ents t)(a \<mapsto> e1)"
  have a_new: "a \<notin> set (concat bs)"
  proof
    assume "a \<in> set (concat bs)"
    from chains_allocated [OF _ this, of t] inv fresh show False by (simp add: table_inv_def)
  qed
  have ok1: "buckets_ok h1 (tab t) (tab_size t) bs"
    by (rule buckets_ok_frame [OF ok]) (use a_new in \<open>auto simp: h1_def\<close>)
  have hn: "home t k < tab_size t" using n by (rule home_less)
  have "\<exists>h3. (case tab t ! home t k of
                 None \<Rightarrow> Some h1
               | Some b \<Rightarrow> do { h2 \<leftarrow> set_prev h1 b (Some a); set_next h2 a (Some b) }) = Some h3 \<and>
              buckets_ok h3 ((tab t)[home t k := Some a]) (tab_size t)
                (bs[home t k := a # bs ! home t k]) \<and>
              h3 a = Some (e1\<lparr>next_e := tab t ! home t k\<rparr>) \<and>
              (\<forall>x. x \<noteq> a \<longrightarrow> Some x \<noteq> tab t ! home t k \<longrightarrow> h3 x = h1 x) \<and>
              (\<forall>b. tab t ! home t k = Some b \<longrightarrow>
                   (\<exists>eb. h1 b = Some eb \<and> h3 b = Some (eb\<lparr>prev := Some a\<rparr>)))"
    by (rule push_bucket [OF ok1 n a_new]) (simp_all add: h1_def e1_def home_def)
  then obtain h3 where h3:
    "(case tab t ! home t k of
        None \<Rightarrow> Some h1
      | Some b \<Rightarrow> do { h2 \<leftarrow> set_prev h1 b (Some a); set_next h2 a (Some b) }) = Some h3"
    "buckets_ok h3 ((tab t)[home t k := Some a]) (tab_size t) (bs[home t k := a # bs ! home t k])"
    "h3 a = Some (e1\<lparr>next_e := tab t ! home t k\<rparr>)"
    "\<forall>x. x \<noteq> a \<longrightarrow> Some x \<noteq> tab t ! home t k \<longrightarrow> h3 x = h1 x"
    "\<forall>b. tab t ! home t k = Some b \<longrightarrow> (\<exists>eb. h1 b = Some eb \<and> h3 b = Some (eb\<lparr>prev := Some a\<rparr>))"
    by blast
  have run: "put_link a k v t
    = Some (0, t\<lparr>ents := h3, tab := (tab t)[home t k := Some a], nelem := nelem t + 1\<rparr>)"
    using n hn len h3(1) [unfolded h1_def e1_def]
    by (simp add: put_link_def Let_def bucket_of_def tab_at_def tab_set_def
        home_def [symmetric])
  have cnt': "nelem t + 1 = length (concat (bs[home t k := a # bs ! home t k]))"
    using length_concat_update [of "home t k" bs "a # bs ! home t k"] hn len cnt by simp
  have inv': "table_inv (t\<lparr>ents := h3, tab := (tab t)[home t k := Some a], nelem := nelem t + 1\<rparr>)
      (bs[home t k := a # bs ! home t k])"
    using h3(2) n cnt' by (simp add: table_inv_buckets_ok)
  have pay: "same_payload (ents t x) (h3 x)" if "x \<noteq> a" for x
  proof (cases "Some x = tab t ! home t k")
    case True
    with h3(5) obtain eb where "h1 x = Some eb" "h3 x = Some (eb\<lparr>prev := Some a\<rparr>)" by metis
    with that show ?thesis by (simp add: same_payload_def h1_def)
  next
    case False
    with h3(4) that show ?thesis by (simp add: h1_def)
  qed
  have "\<forall>x. x \<noteq> a \<longrightarrow> Some x \<noteq> tab t ! home t k \<longrightarrow> h3 x = ents t x"
    using h3(4) by (simp add: h1_def)
  with run inv' h3(3) pay show ?thesis by (auto simp: e1_def)
qed

lemma put_absent:
  assumes "zc_hashtable_get_entry t (Some k) = Some None"
  shows "zc_hashtable_put tc pc t (Some k) v =
         do {
           (rc, t1) \<leftarrow> (if real (nelem t) > real (tab_size t) * 1.3
                        then zc_hashtable_rehash tc t else Some (0, t));
           if rc \<noteq> 0 then Some (- 1, t1)
           else (case pc of None \<Rightarrow> Some (- 1, t1) | Some a \<Rightarrow> put_link a k v t1)
         }"
  using assms
  by (auto simp: zc_hashtable_get_entry_def zc_hashtable_put_def zc_assert_def
      split: Option.bind_splits option.splits)

section \<open>Unlinking an entry\<close>

lemma unlink_head:
  assumes "dll h pv (Some a) (a # ys)" "h a = Some e"
  shows "\<exists>h1. (case next_e e of Some n \<Rightarrow> set_prev h n (prev e) | None \<Rightarrow> Some h) = Some h1 \<and>
              h1 a = Some e \<and> prev e = pv \<and>
              dll (h1(a := None)) pv (next_e e) ys \<and>
              (\<forall>x. Some x \<noteq> next_e e \<longrightarrow> h1 x = h x) \<and>
              (\<forall>n. next_e e = Some n \<longrightarrow> n \<in> set ys \<and>
                   (\<exists>en. h n = Some en \<and> h1 n = Some (en\<lparr>prev := prev e\<rparr>)))"
proof -
  from assms have e: "prev e = pv" "dll h (Some a) (next_e e) ys" by simp_all
  from assms(1) have a_ys: "a \<notin> set ys" by (rule dll_head_notin_tail)
  show ?thesis
  proof (cases ys)
    case Nil
    with e assms(2) show ?thesis by simp
  next
    case (Cons n ys')
    with e(2) obtain en where n: "next_e e = Some n" "h n = Some en" "prev en = Some a"
      "dll h (Some n) (next_e en) ys'" by (auto split: option.splits)
    from e(2) n(1) Cons have n_ys': "n \<notin> set ys'"
      using dll_head_notin_tail [of h "Some a" n ys'] by simp
    from a_ys Cons have an: "a \<noteq> n" "a \<notin> set ys'" by auto
    define h1 where "h1 = h(n \<mapsto> en\<lparr>prev := pv\<rparr>)"
    have "dll (h1(a := None)) (Some n) (next_e en) ys'"
      by (rule dll_frame [OF n(4)]) (use an n_ys' in \<open>auto simp: h1_def\<close>)
    then have "dll (h1(a := None)) pv (next_e e) ys"
      using an n(1) by (simp add: Cons h1_def)
    moreover have "(case next_e e of Some n \<Rightarrow> set_prev h n (prev e) | None \<Rightarrow> Some h) = Some h1"
      using n e(1) by (simp add: set_prev_def h1_def)
    ultimately show ?thesis using assms(2) an n e(1) Cons by (auto simp: h1_def)
  qed
qed

lemma unlink_inner:
  assumes "dll h pv p (xs @ b # a # ys)" "h a = Some e"
  shows "\<exists>h1 h2. (case next_e e of Some n \<Rightarrow> set_prev h n (prev e) | None \<Rightarrow> Some h) = Some h1 \<and>
              h1 a = Some e \<and> prev e = Some b \<and>
              set_next h1 b (next_e e) = Some h2 \<and>
              dll (h2(a := None)) pv p (xs @ b # ys) \<and>
              (\<forall>x. x \<noteq> b \<longrightarrow> Some x \<noteq> next_e e \<longrightarrow> h2 x = h x) \<and>
              (\<forall>x. x \<noteq> a \<longrightarrow> same_payload (h x) (h2 x))"
  using assms
proof (induction xs arbitrary: pv p)
  case Nil
  then obtain eb where b: "p = Some b" "h b = Some eb" "prev eb = pv" "next_e eb = Some a"
    "dll h (Some b) (Some a) (a # ys)" by (auto split: option.splits)
  from Nil.prems(1) have dist: "distinct (b # a # ys)" using dll_distinct by fastforce
  from unlink_head [OF b(5) Nil.prems(2)]
  obtain h1 where h1:
    "(case next_e e of Some n \<Rightarrow> set_prev h n (prev e) | None \<Rightarrow> Some h) = Some h1"
    "h1 a = Some e" "prev e = Some b" "dll (h1(a := None)) (Some b) (next_e e) ys"
    "\<forall>x. Some x \<noteq> next_e e \<longrightarrow> h1 x = h x"
    "\<forall>n. next_e e = Some n \<longrightarrow> n \<in> set ys \<and>
         (\<exists>en. h n = Some en \<and> h1 n = Some (en\<lparr>prev := prev e\<rparr>))"
    by blast
  from h1(6) dist have "Some b \<noteq> next_e e" by auto
  with h1(5) b(2) have h1b: "h1 b = Some eb" by simp
  define h2 where "h2 = h1(b \<mapsto> eb\<lparr>next_e := next_e e\<rparr>)"
  have run2: "set_next h1 b (next_e e) = Some h2"
    using h1b by (simp add: set_next_def h2_def)
  have "dll (h2(a := None)) (Some b) (next_e e) ys"
    by (rule dll_frame [OF h1(4)]) (use dist in \<open>auto simp: h2_def\<close>)
  then have d: "dll (h2(a := None)) pv p ([] @ b # ys)"
    using dist b(1,3) by (simp add: h2_def)
  have fr: "\<forall>x. x \<noteq> b \<longrightarrow> Some x \<noteq> next_e e \<longrightarrow> h2 x = h x"
    using h1(5) by (simp add: h2_def)
  have pay: "same_payload (h x) (h2 x)" if "x \<noteq> a" for x
  proof (cases "x = b")
    case True
    with b(2) show ?thesis by (simp add: h2_def same_payload_def)
  next
    case False
    show ?thesis
    proof (cases "Some x = next_e e")
      case True
      with h1(6) obtain en where "h x = Some en" "h1 x = Some (en\<lparr>prev := prev e\<rparr>)" by metis
      with False show ?thesis by (simp add: h2_def same_payload_def)
    next
      case F: False
      with fr False show ?thesis by simp
    qed
  qed
  from h1(1,2,3) run2 d fr pay show ?case by blast
next
  case (Cons x xs)
  from Cons.prems(1) obtain ex where x: "p = Some x" "h x = Some ex" "prev ex = pv"
    "dll h (Some x) (next_e ex) (xs @ b # a # ys)" by (auto split: option.splits)
  from Cons.prems(1) have dist: "distinct (x # xs @ b # a # ys)" using dll_distinct by fastforce
  from Cons.IH [OF x(4) Cons.prems(2)]
  obtain h1 h2 where r:
    "(case next_e e of Some n \<Rightarrow> set_prev h n (prev e) | None \<Rightarrow> Some h) = Some h1"
    "h1 a = Some e" "prev e = Some b" "set_next h1 b (next_e e) = Some h2"
    "dll (h2(a := None)) (Some x) (next_e ex) (xs @ b # ys)"
    "\<forall>x. x \<noteq> b \<longrightarrow> Some x \<noteq> next_e e \<longrightarrow> h2 x = h x"
    "\<forall>x. x \<noteq> a \<longrightarrow> same_payload (h x) (h2 x)"
    by blast
  have nxt: "\<forall>n. next_e e = Some n \<longrightarrow> n \<in> set ys"
  proof -
    from Cons.prems(1) obtain pv' q where "dll h pv' q (a # ys)"
      using dll_suffix [of h pv p "x # xs @ [b]" "a # ys"] by auto
    with Cons.prems(2) have "dll h (Some a) (next_e e) ys" by (auto split: option.splits)
    then show ?thesis by (auto dest: dll_head_mem)
  qed
  with dist have "Some x \<noteq> next_e e" by auto
  with r(6) dist x(2) have "h2 x = Some ex" by auto
  with r(5) dist x(1,3) have "dll (h2(a := None)) pv p ((x # xs) @ b # ys)" by simp
  with r show ?case by blast
qed

lemma unlink_chain:
  assumes "dll h None p as" "a \<in> set as" "h a = Some e"
  shows "\<exists>h1 h2. (case next_e e of Some n \<Rightarrow> set_prev h n (prev e) | None \<Rightarrow> Some h) = Some h1 \<and>
           h1 a = Some e \<and>
           (case prev e of Some b \<Rightarrow> set_next h1 b (next_e e) | None \<Rightarrow> Some h1) = Some h2 \<and>
           (prev e = None \<longrightarrow> p = Some a) \<and>
           dll (h2(a := None)) None (case prev e of Some b \<Rightarrow> p | None \<Rightarrow> next_e e)
             (remove1 a as) \<and>
           (\<forall>x. x \<notin> set as \<longrightarrow> h2 x = h x) \<and>
           (\<forall>x. x \<noteq> a \<longrightarrow> same_payload (h x) (h2 x))"
proof -
  from assms(2) obtain xs ys where as: "as = xs @ a # ys" by (auto simp: in_set_conv_decomp)
  from assms(1) have dist: "distinct as" by (rule dll_distinct)
  with as have rm: "remove1 a as = xs @ ys" by (simp add: remove1_append)
  show ?thesis
  proof (cases xs rule: rev_cases)
    case Nil
    with assms(1) as have d: "dll h None (Some a) (a # ys)" and p: "p = Some a"
      by (cases p; simp)+
    from unlink_head [OF d assms(3)]
    obtain h1 where h1:
      "(case next_e e of Some n \<Rightarrow> set_prev h n (prev e) | None \<Rightarrow> Some h) = Some h1"
      "h1 a = Some e" "prev e = None" "dll (h1(a := None)) None (next_e e) ys"
      "\<forall>x. Some x \<noteq> next_e e \<longrightarrow> h1 x = h x"
      "\<forall>n. next_e e = Some n \<longrightarrow> n \<in> set ys \<and>
           (\<exists>en. h n = Some en \<and> h1 n = Some (en\<lparr>prev := prev e\<rparr>))"
      by blast
    have fr: "\<forall>x. x \<notin> set as \<longrightarrow> h1 x = h x"
    proof (intro allI impI)
      fix x assume "x \<notin> set as"
      with as have "x \<notin> set ys" by simp
      with h1(6) have "Some x \<noteq> next_e e" by metis
      with h1(5) show "h1 x = h x" by simp
    qed
    have pay: "\<forall>x. x \<noteq> a \<longrightarrow> same_payload (h x) (h1 x)"
    proof (intro allI impI)
      fix x assume "x \<noteq> a"
      show "same_payload (h x) (h1 x)"
      proof (cases "Some x = next_e e")
        case True
        with h1(6) obtain en where "h x = Some en" "h1 x = Some (en\<lparr>prev := prev e\<rparr>)" by metis
        then show ?thesis by (simp add: same_payload_def)
      next
        case False
        with h1(5) show ?thesis by simp
      qed
    qed
    from h1(1-4) p fr pay show ?thesis by (simp add: rm Nil)
  next
    case (snoc xs' b)
    with assms(1) as have d: "dll h None p (xs' @ b # a # ys)" by simp
    from unlink_inner [OF d assms(3)]
    obtain h1 h2 where r:
      "(case next_e e of Some n \<Rightarrow> set_prev h n (prev e) | None \<Rightarrow> Some h) = Some h1"
      "h1 a = Some e" "prev e = Some b" "set_next h1 b (next_e e) = Some h2"
      "dll (h2(a := None)) None p (xs' @ b # ys)"
      "\<forall>x. x \<noteq> b \<longrightarrow> Some x \<noteq> next_e e \<longrightarrow> h2 x = h x"
      "\<forall>x. x \<noteq> a \<longrightarrow> same_payload (h x) (h2 x)"
      by blast
    have nxt: "\<forall>n. next_e e = Some n \<longrightarrow> n \<in> set ys"
    proof -
      from d obtain pv' q where "dll h pv' q (a # ys)"
        using dll_suffix [of h None p "xs' @ [b]" "a # ys"] by auto
      with assms(3) have "dll h (Some a) (next_e e) ys" by (auto split: option.splits)
      then show ?thesis by (auto dest: dll_head_mem)
    qed
    have fr: "\<forall>x. x \<notin> set as \<longrightarrow> h2 x = h x"
    proof (intro allI impI)
      fix x assume x: "x \<notin> set as"
      with as snoc have "x \<noteq> b" by auto
      moreover from x nxt as have "Some x \<noteq> next_e e" by auto
      ultimately show "h2 x = h x" using r(6) by simp
    qed
    from r fr show ?thesis by (simp add: rm snoc)
  qed
qed

lemma remove_present:
  assumes "zc_hashtable_get_entry t (Some k) = Some (Some a)"
  shows "zc_hashtable_remove t (Some k) =
         do {
           e \<leftarrow> ents t a;
           let t1 = call_del_fns t (key e) (value_e e);
           h1 \<leftarrow> (case next_e e of
                    Some n \<Rightarrow> set_prev (ents t1) n (prev e)
                  | None \<Rightarrow> Some (ents t1));
           e1 \<leftarrow> h1 a;
           (h2, tb) \<leftarrow> (case prev e1 of
                          Some b \<Rightarrow> do { h \<leftarrow> set_next h1 b (next_e e1); Some (h, tab t1) }
                        | None \<Rightarrow>
                            do {
                              j \<leftarrow> bucket_of (hash_key e1) (tab_size t1);
                              tb' \<leftarrow> tab_set (tab t1) j (next_e e1);
                              Some (h1, tb')
                            });
           Some (t1\<lparr>ents := h2(a := None), tab := tb, nelem := nelem t1 - 1\<rparr>)
         }"
  using assms
  by (auto simp: zc_hashtable_get_entry_def zc_hashtable_remove_def zc_assert_def
      split: Option.bind_splits)

lemma remove_absent:
  assumes "zc_hashtable_get_entry t (Some k) = Some None"
  shows "zc_hashtable_remove t (Some k) = Some t"
  using assms
  by (auto simp: zc_hashtable_get_entry_def zc_hashtable_remove_def zc_assert_def
      split: Option.bind_splits)

lemma call_del_fns_simps [simp]:
  "ents (call_del_fns t k v) = ents t" "tab (call_del_fns t k v) = tab t"
  "tab_size (call_del_fns t k v) = tab_size t" "nelem (call_del_fns t k v) = nelem t"
  "hash_fn (call_del_fns t k v) = hash_fn t" "equal_fn (call_del_fns t k v) = equal_fn t"
  "key_del_fn (call_del_fns t k v) = key_del_fn t"
  "value_del_fn (call_del_fns t k v) = value_del_fn t"
  by (simp_all add: call_del_fns_def)

lemma remove_found:
  assumes inv: "table_inv t bs" and found: "zc_hashtable_get_entry t (Some k) = Some (Some a)"
  shows "\<exists>e h' tb'.
           ents t a = Some e \<and> a \<in> set (bs ! home t k) \<and> key_matches t k a \<and>
           zc_hashtable_remove t (Some k)
             = Some ((call_del_fns t (key e) (value_e e))
                       \<lparr>ents := h', tab := tb', nelem := nelem t - 1\<rparr>) \<and>
           table_inv ((call_del_fns t (key e) (value_e e))
                       \<lparr>ents := h', tab := tb', nelem := nelem t - 1\<rparr>)
             (bs[home t k := remove1 a (bs ! home t k)]) \<and>
           0 < nelem t \<and> h' a = None \<and>
           (\<forall>x. x \<noteq> a \<longrightarrow> same_payload (ents t x) (h' x))"
proof -
  define i where "i = home t k"
  from inv have n: "0 < tab_size t" and ok: "buckets_ok (ents t) (tab t) (tab_size t) bs"
    and cnt: "nelem t = length (concat bs)"
    by (simp_all add: table_inv_buckets_ok)
  from inv have ch: "bucket_chains t bs" by (simp add: table_inv_def)
  from ok have len: "length (tab t) = tab_size t" "length bs = tab_size t"
    by (simp_all add: buckets_ok_def)
  have i: "i < tab_size t" unfolding i_def using n by (rule home_less)
  from get_entry_find [OF ch, of k] found have "find (key_matches t k) (bs ! i) = Some a"
    by (simp add: i_def)
  from find_Some_D [OF this] have a: "a \<in> set (bs ! i)" "key_matches t k a" by simp_all
  from ok i have d: "dll (ents t) None (tab t ! i) (bs ! i)" by (simp add: buckets_ok_def)
  from dll_allocated [OF d a(1)] obtain e where e: "ents t a = Some e" ..
  from bucket_inv_home [of t bs i a e] inv i len a(1) e
  have hk: "unat (hash_key e) mod tab_size t = i" by (simp add: table_inv_def)
  from unlink_chain [OF d a(1) e]
  obtain h1 h2 where u:
    "(case next_e e of Some n \<Rightarrow> set_prev (ents t) n (prev e) | None \<Rightarrow> Some (ents t)) = Some h1"
    "h1 a = Some e"
    "(case prev e of Some b \<Rightarrow> set_next h1 b (next_e e) | None \<Rightarrow> Some h1) = Some h2"
    "prev e = None \<longrightarrow> tab t ! i = Some a"
    "dll (h2(a := None)) None (case prev e of Some b \<Rightarrow> tab t ! i | None \<Rightarrow> next_e e)
       (remove1 a (bs ! i))"
    "\<forall>x. x \<notin> set (bs ! i) \<longrightarrow> h2 x = ents t x"
    "\<forall>x. x \<noteq> a \<longrightarrow> same_payload (ents t x) (h2 x)"
    by (elim exE conjE) (rule that; assumption)
  define tb' where "tb' = (case prev e of Some b \<Rightarrow> tab t | None \<Rightarrow> (tab t)[i := next_e e])"
  define t' where "t' = (call_del_fns t (key e) (value_e e))
                          \<lparr>ents := h2(a := None), tab := tb', nelem := nelem t - 1\<rparr>"
  have run: "zc_hashtable_remove t (Some k) = Some t'"
  proof (cases "prev e")
    case None
    with u(3) have "h2 = h1" by simp
    with None e u(1,2) hk n i len show ?thesis
      by (subst remove_present [OF found])
        (simp add: t'_def tb'_def bucket_of_def tab_set_def Let_def cong: option.case_cong)
  next
    case (Some b)
    with e u(1,2,3) show ?thesis
      by (subst remove_present [OF found]) (simp add: t'_def tb'_def Let_def cong: option.case_cong)
  qed
  have len': "length tb' = tab_size t" by (simp add: tb'_def len split: option.splits)
  have di: "dll (h2(a := None)) None (tb' ! i) (remove1 a (bs ! i))"
    using u(5) i len by (simp add: tb'_def split: option.splits)
  have dj: "dll (h2(a := None)) None (tb' ! j) (bs ! j)" if j: "j < tab_size t" "j \<noteq> i" for j
  proof -
    have "dll (h2(a := None)) None (tab t ! j) (bs ! j)"
    proof (rule dll_frame)
      from ok j show "dll (ents t) None (tab t ! j) (bs ! j)" by (simp add: buckets_ok_def)
    next
      fix x assume x: "x \<in> set (bs ! j)"
      have "x \<notin> set (bs ! i)"
      proof
        assume "x \<in> set (bs ! i)"
        from buckets_ok_disjoint [OF ok j(1) i x this] j(2) show False by simp
      qed
      with u(6) a(1) show "(h2(a := None)) x = ents t x" by auto
    qed
    with j show ?thesis by (simp add: tb'_def split: option.splits)
  qed
  have chains': "dll (h2(a := None)) None (tb' ! j) (bs[i := remove1 a (bs ! i)] ! j)"
    if "j < tab_size t" for j
    using that di dj [of j] len by (cases "j = i") simp_all
  have dist: "distinct (bs ! i)" using d by (rule dll_distinct)
  have home': "\<exists>e'. (h2(a := None)) x = Some e' \<and> unat (hash_key e') mod tab_size t = j"
    if j: "j < tab_size t" "x \<in> set (bs[i := remove1 a (bs ! i)] ! j)" for j x
  proof -
    have x: "x \<in> set (bs ! j) \<and> x \<noteq> a"
    proof (cases "j = i")
      case True
      with j len dist show ?thesis by simp
    next
      case False
      with j len have xj: "x \<in> set (bs ! j)" by simp
      have "x \<noteq> a"
      proof
        assume "x = a"
        with xj buckets_ok_disjoint [OF ok j(1) i _ a(1)] False show False by simp
      qed
      with xj show ?thesis by simp
    qed
    with ok j(1) obtain ex where ex: "ents t x = Some ex" "unat (hash_key ex) mod tab_size t = j"
      unfolding buckets_ok_def by blast
    from u(7) x have "same_payload (ents t x) (h2 x)" by simp
    with ex(1) obtain e' where "h2 x = Some e'" "hash_key e' = hash_key ex"
      by (auto dest: same_payload_SomeD)
    with ex(2) x show ?thesis by simp
  qed
  have ok': "buckets_ok (h2(a := None)) tb' (tab_size t) (bs[i := remove1 a (bs ! i)])"
    unfolding buckets_ok_def using len len' chains' home' by simp
  from a(1) have la: "length (remove1 a (bs ! i)) + 1 = length (bs ! i)"
    by (simp add: length_remove1) (cases "bs ! i"; simp)
  from length_concat_update [of i bs "remove1 a (bs ! i)"] i len la
  have cnt': "length (concat (bs[i := remove1 a (bs ! i)])) + 1 = length (concat bs)" by simp
  have inv': "table_inv t' (bs[i := remove1 a (bs ! i)])"
    using ok' n cnt cnt' by (simp add: table_inv_buckets_ok t'_def)
  have pay: "\<forall>x. x \<noteq> a \<longrightarrow> same_payload (ents t x) ((h2(a := None)) x)"
    using u(7) by simp
  from cnt cnt' have "0 < nelem t" by linarith
  with e a run inv' pay show ?thesis unfolding t'_def i_def
    by (intro exI [of _ e] exI [of _ "h2(a := None)"] exI [of _ tb'] conjI) simp_all
qed

section \<open>Construction and clean\<close>

lemma table_inv_empty:
  assumes "0 < tab_size t" "tab t = replicate (tab_size t) None" "nelem t = 0"
  shows "table_inv t (replicate (tab_size t) [])"
  using assms buckets_ok_empty [of "ents t" "tab_size t"]
  by (simp add: table_inv_buckets_ok)

lemma keys_inv_empty: "keys_inv t (replicate n [])"
  by (simp add: keys_inv_def)

lemma new_table:
  assumes "0 < a_size"
  shows "zc_hashtable_new True True a_size (Some hf) (Some eq) kd vd
         = Some \<lparr>nelem = 0, tab = replicate a_size None, tab_size = a_size,
                 hash_fn = hf, equal_fn = eq, key_del_fn = kd, value_del_fn = vd,
                 ents = Map.empty, del_log = []\<rparr>"
  using assms by (simp add: zc_hashtable_new_def zc_assert_def)

lemma clean_chain_frees:
  assumes "dll (ents t) pv p as"
  shows "\<exists>h' l'. clean_chain p t = Some (t\<lparr>ents := h', del_log := l'\<rparr>) \<and>
           (\<forall>x. x \<notin> set as \<longrightarrow> h' x = ents t x) \<and> (\<forall>x\<in>set as. h' x = None)"
  using assms
proof (induction as arbitrary: p pv t)
  case Nil
  then have "clean_chain p t = Some (t\<lparr>ents := ents t, del_log := del_log t\<rparr>)"
    by (subst clean_chain.simps) simp
  then show ?case by (intro exI [of _ "ents t"] exI [of _ "del_log t"] conjI) simp_all
next
  case (Cons a as)
  from Cons.prems obtain e where e: "p = Some a" "ents t a = Some e"
    "dll (ents t) (Some a) (next_e e) as" by (auto split: option.splits)
  from Cons.prems e(1) have a_as: "a \<notin> set as"
    using dll_head_notin_tail [of "ents t" pv a as] by simp
  define t1 where "t1 = (call_del_fns t (key e) (value_e e))\<lparr>ents := (ents t)(a := None)\<rparr>"
  have "dll (ents t1) (Some a) (next_e e) as"
    unfolding t1_def by simp (rule dll_frame [OF e(3)], use a_as in auto)
  from Cons.IH [OF this]
  obtain h' l' where r: "clean_chain (next_e e) t1 = Some (t1\<lparr>ents := h', del_log := l'\<rparr>)"
    "\<forall>x. x \<notin> set as \<longrightarrow> h' x = ents t1 x" "\<forall>x\<in>set as. h' x = None" by blast
  have "clean_chain p t = Some (t\<lparr>ents := h', del_log := l'\<rparr>)"
    using e r(1) by (subst clean_chain.simps) (simp add: t1_def Let_def call_del_fns_def)
  moreover have "\<forall>x. x \<notin> set (a # as) \<longrightarrow> h' x = ents t x"
    using r(2) by (simp add: t1_def)
  moreover have "\<forall>x\<in>set (a # as). h' x = None"
    using r(2,3) a_as by (auto simp: t1_def)
  ultimately show ?case by blast
qed

lemma clean_loop_empties:
  assumes "length bs = tab_size t" "length (tab t) = tab_size t"
    and "\<forall>i'. i \<le> i' \<and> i' < tab_size t \<longrightarrow> dll (ents t) None (tab t ! i') (bs ! i')"
    and "distinct (concat (drop i bs))" "i \<le> tab_size t"
  shows "\<exists>h' l'. clean_loop i t
           = Some (t\<lparr>ents := h', del_log := l',
                    tab := take i (tab t) @ replicate (tab_size t - i) None\<rparr>) \<and>
           (\<forall>x. x \<notin> set (concat (drop i bs)) \<longrightarrow> h' x = ents t x) \<and>
           (\<forall>x\<in>set (concat (drop i bs)). h' x = None)"
  using assms
proof (induction "tab_size t - i" arbitrary: i t)
  case 0
  then have "i = tab_size t" by simp
  with 0 have "clean_loop i t = Some (t\<lparr>ents := ents t, del_log := del_log t,
      tab := take i (tab t) @ replicate (tab_size t - i) None\<rparr>)"
    by (subst clean_loop.simps) simp
  with 0 \<open>i = tab_size t\<close> show ?case
    by (intro exI [of _ "ents t"] exI [of _ "del_log t"] conjI) simp_all
next
  case (Suc k)
  from Suc.hyps(2) have i: "i < tab_size t" by simp
  define rest where "rest = concat (drop (Suc i) bs)"
  from i Suc.prems(1) have dr: "concat (drop i bs) = bs ! i @ rest"
    by (simp add: rest_def flip: Cons_nth_drop_Suc)
  from Suc.prems(4) have dist: "distinct rest" "set (bs ! i) \<inter> set rest = {}"
    by (simp_all add: dr)
  from Suc.prems(3) i have di: "dll (ents t) None (tab t ! i) (bs ! i)" by simp
  from clean_chain_frees [OF di]
  obtain h1 l1 where c: "clean_chain (tab t ! i) t = Some (t\<lparr>ents := h1, del_log := l1\<rparr>)"
    "\<forall>x. x \<notin> set (bs ! i) \<longrightarrow> h1 x = ents t x" "\<forall>x\<in>set (bs ! i). h1 x = None" by blast
  define t2 where "t2 = t\<lparr>ents := h1, del_log := l1, tab := (tab t)[i := None]\<rparr>"
  have p3: "\<forall>i'. Suc i \<le> i' \<and> i' < tab_size t2 \<longrightarrow> dll (ents t2) None (tab t2 ! i') (bs ! i')"
  proof (intro allI impI)
    fix i' assume i': "Suc i \<le> i' \<and> i' < tab_size t2"
    then have i'n: "i' < tab_size t" "i \<noteq> i'" by (simp_all add: t2_def)
    with Suc.prems(3) i' have d: "dll (ents t) None (tab t ! i') (bs ! i')" by simp
    have "dll h1 None (tab t ! i') (bs ! i')"
    proof (rule dll_frame [OF d])
      fix x assume "x \<in> set (bs ! i')"
      moreover from i' Suc.prems(1) have "bs ! i' \<in> set (drop (Suc i) bs)"
        by (auto simp: in_set_conv_nth t2_def intro!: exI [of _ "i' - Suc i"])
      ultimately have "x \<in> set rest" by (auto simp: rest_def set_concat)
      with dist(2) c(2) show "h1 x = ents t x" by auto
    qed
    with i'n show "dll (ents t2) None (tab t2 ! i') (bs ! i')" by (simp add: t2_def)
  qed
  from Suc.hyps(2) have k: "k = tab_size t2 - Suc i" by (simp add: t2_def)
  have "\<exists>h' l'. clean_loop (Suc i) t2
           = Some (t2\<lparr>ents := h', del_log := l',
                     tab := take (Suc i) (tab t2) @ replicate (tab_size t2 - Suc i) None\<rparr>) \<and>
           (\<forall>x. x \<notin> set (concat (drop (Suc i) bs)) \<longrightarrow> h' x = ents t2 x) \<and>
           (\<forall>x\<in>set (concat (drop (Suc i) bs)). h' x = None)"
    by (rule Suc.hyps(1) [OF k _ _ p3])
      (use Suc.prems i dist in \<open>simp_all add: t2_def rest_def\<close>)
  then obtain h' l' where r: "clean_loop (Suc i) t2
           = Some (t2\<lparr>ents := h', del_log := l',
                     tab := take (Suc i) (tab t2) @ replicate (tab_size t2 - Suc i) None\<rparr>)"
    "\<forall>x. x \<notin> set rest \<longrightarrow> h' x = ents t2 x" "\<forall>x\<in>set rest. h' x = None"
    unfolding rest_def by blast
  have tk: "take (Suc i) ((tab t)[i := None]) @ replicate (tab_size t - Suc i) None
            = take i (tab t) @ replicate (tab_size t - i) None"
    using i Suc.prems(2)
    by (simp add: take_Suc_conv_app_nth replicate_app_Cons_same flip: replicate_Suc Suc_diff_Suc)
  have run: "clean_loop i t = Some (t\<lparr>ents := h', del_log := l',
      tab := take i (tab t) @ replicate (tab_size t - i) None\<rparr>)"
    using i Suc.prems(2) c(1) r(1) tk
    by (subst clean_loop.simps) (simp add: tab_at_def tab_set_def t2_def)
  have "\<forall>x. x \<notin> set (concat (drop i bs)) \<longrightarrow> h' x = ents t x"
    using r(2) c(2) by (simp add: dr t2_def)
  moreover have "\<forall>x\<in>set (concat (drop i bs)). h' x = None"
    using r(2,3) c(3) by (auto simp: dr t2_def)
  ultimately show ?case using run by blast
qed

lemma clean_table:
  assumes "table_inv t bs"
  shows "\<exists>h' l'. zc_hashtable_clean t
           = Some (t\<lparr>ents := h', del_log := l', tab := replicate (tab_size t) None, nelem := 0\<rparr>) \<and>
           table_inv (t\<lparr>ents := h', del_log := l', tab := replicate (tab_size t) None, nelem := 0\<rparr>)
             (replicate (tab_size t) []) \<and>
           (\<forall>x. x \<notin> set (concat bs) \<longrightarrow> h' x = ents t x) \<and>
           (\<forall>x\<in>set (concat bs). h' x = None)"
proof -
  from assms have n: "0 < tab_size t" and len: "length bs = tab_size t" "length (tab t) = tab_size t"
    and d: "\<forall>i'. 0 \<le> i' \<and> i' < tab_size t \<longrightarrow> dll (ents t) None (tab t ! i') (bs ! i')"
    by (simp_all add: table_inv_def bucket_chains_def)
  have dist: "distinct (concat (drop 0 bs))" using table_inv_distinct [OF assms] by simp
  from clean_loop_empties [OF len d dist]
  obtain h' l' where r: "clean_loop 0 t
      = Some (t\<lparr>ents := h', del_log := l', tab := replicate (tab_size t) None\<rparr>)"
    "\<forall>x. x \<notin> set (concat bs) \<longrightarrow> h' x = ents t x" "\<forall>x\<in>set (concat bs). h' x = None"
    by auto
  have "table_inv (t\<lparr>ents := h', del_log := l', tab := replicate (tab_size t) None, nelem := 0\<rparr>)
      (replicate (tab_size t) [])"
    using table_inv_empty [of "t\<lparr>ents := h', del_log := l',
      tab := replicate (tab_size t) None, nelem := 0\<rparr>"] n by simp
  with r show ?thesis by (auto simp: zc_hashtable_clean_def)
qed

section \<open>Iteration\<close>

lemma begin_loop_next_loop: "begin_loop t i = next_loop t i"
proof (induction "tab_size t - i" arbitrary: i)
  case 0
  then show ?case by (subst begin_loop.simps, subst next_loop.simps) simp
next
  case (Suc k)
  then have "k = tab_size t - Suc i" by simp
  from Suc.hyps(1) [OF this] show ?case
    by (subst begin_loop.simps, subst next_loop.simps) simp
qed

lemma visit_chain:
  assumes inv: "table_inv t bs" and j: "j < tab_size t"
    and nxt: "next_loop t (Suc j) = Some r" "visit_from t r = Some (concat (drop (Suc j) bs))"
    and seg: "dll (ents t) pv (Some a) (a # as)" "set (a # as) \<subseteq> set (bs ! j)"
  shows "visit_from t (Some a) = Some (a # as @ concat (drop (Suc j) bs))"
  using seg
proof (induction as arbitrary: a pv)
  case Nil
  then obtain e where e: "ents t a = Some e" "next_e e = None" by (auto split: option.splits)
  from inv j have "bucket_inv t bs" "j < length bs" "0 < tab_size t"
    by (simp_all add: table_inv_def bucket_chains_def)
  with Nil.prems(2) e(1) have "unat (hash_key e) mod tab_size t = j"
    using bucket_inv_home [of t bs j a e] by simp
  with e \<open>0 < tab_size t\<close> nxt(1) have "zc_hashtable_next t (Some a) = Some r"
    by (simp add: zc_hashtable_next_def zc_assert_def bucket_of_def)
  with nxt(2) show ?case by (subst visit_from.simps) simp
next
  case (Cons b as)
  then obtain e where e: "ents t a = Some e" "next_e e = Some b"
    "dll (ents t) (Some a) (Some b) (b # as)" by (auto split: option.splits)
  from Cons.prems(2) have "set (b # as) \<subseteq> set (bs ! j)" by simp
  from Cons.IH [OF e(3) this]
  have "visit_from t (Some b) = Some (b # as @ concat (drop (Suc j) bs))" .
  moreover from e have "zc_hashtable_next t (Some a) = Some (Some b)"
    by (simp add: zc_hashtable_next_def zc_assert_def)
  ultimately show ?case by (subst visit_from.simps) simp
qed

lemma visit_buckets:
  assumes inv: "table_inv t bs" and j: "j \<le> tab_size t"
  shows "\<exists>r. next_loop t j = Some r \<and> visit_from t r = Some (concat (drop j bs))"
  using j
proof (induction "tab_size t - j" arbitrary: j)
  case 0
  with inv have "drop j bs = []" by (simp add: table_inv_def bucket_chains_def)
  moreover from 0 have "next_loop t j = Some None" by (subst next_loop.simps) simp
  moreover have "visit_from t None = Some []" by (subst visit_from.simps) simp
  ultimately show ?case by simp
next
  case (Suc k)
  from Suc.hyps(2) have j: "j < tab_size t" by simp
  from inv have len: "length (tab t) = tab_size t" "length bs = tab_size t"
    by (simp_all add: table_inv_def bucket_chains_def)
  from inv j have d: "dll (ents t) None (tab t ! j) (bs ! j)"
    by (simp add: table_inv_def bucket_chains_def)
  from j len have dr: "concat (drop j bs) = bs ! j @ concat (drop (Suc j) bs)"
    by (simp flip: Cons_nth_drop_Suc)
  from Suc.hyps(2) have "k = tab_size t - Suc j" "Suc j \<le> tab_size t" by simp_all
  from Suc.hyps(1) [OF this]
  obtain r where r: "next_loop t (Suc j) = Some r"
    "visit_from t r = Some (concat (drop (Suc j) bs))" by blast
  show ?case
  proof (cases "tab t ! j")
    case None
    with d have "bs ! j = []" by simp
    moreover from None j len r(1) have "next_loop t j = Some r"
      by (subst next_loop.simps) (simp add: tab_at_def)
    ultimately show ?thesis using r(2) by (simp add: dr)
  next
    case (Some a)
    with d obtain as where as: "bs ! j = a # as" by (cases "bs ! j") auto
    from Some j len have "next_loop t j = Some (Some a)"
      by (subst next_loop.simps) (simp add: tab_at_def)
    moreover have "visit_from t (Some a) = Some (a # as @ concat (drop (Suc j) bs))"
      by (rule visit_chain [OF inv j r, of None]) (use d Some as in simp_all)
    ultimately show ?thesis by (simp add: dr as)
  qed
qed

lemma visit_all_chains:
  assumes "table_inv t bs"
  shows "visit_all t = Some (concat bs)"
  using visit_buckets [OF assms, of 0]
  by (auto simp: visit_all_def zc_hashtable_begin_def begin_loop_next_loop)

section \<open>The keys of the entries\<close>

lemma keys_inv_same_payload:
  assumes "keys_inv t bs" "set (concat bs') \<subseteq> set (concat bs)"
    and "\<forall>x\<in>set (concat bs'). same_payload (ents t x) (ents t' x)"
    and "hash_fn t' = hash_fn t" "equal_fn t' = equal_fn t"
  shows "keys_inv t' bs'"
proof -
  have orig: "\<exists>e. ents t x = Some e \<and> hash_key e = hash_key e' \<and> key e = key e'"
    if "x \<in> set (concat bs')" "ents t' x = Some e'" for x e'
  proof -
    from assms(3) that(1) have "same_payload (ents t x) (ents t' x)" by simp
    with that(2) show ?thesis by (auto simp: same_payload_def split: option.splits)
  qed
  show ?thesis
    unfolding keys_inv_def
  proof (intro conjI ballI allI impI)
    fix a e assume a: "a \<in> set (concat bs')" "ents t' a = Some e"
    from orig [OF a] obtain e0 where e0: "ents t a = Some e0" "hash_key e0 = hash_key e"
      "key e0 = key e" by blast
    from assms(1,2) a(1) e0(1) have "hash_key e0 = hash_fn t (key e0)"
      unfolding keys_inv_def by blast
    with e0 assms(4) show "hash_key e = hash_fn t' (key e)" by simp
  next
    fix a b e f assume a: "a \<in> set (concat bs')" "ents t' a = Some e"
      and b: "b \<in> set (concat bs')" "ents t' b = Some f"
      and eq: "equal_fn t' (key e) (key f)"
    from orig [OF a] obtain e0 where e0: "ents t a = Some e0" "key e0 = key e" by blast
    from orig [OF b] obtain f0 where f0: "ents t b = Some f0" "key f0 = key f" by blast
    from eq assms(5) e0(2) f0(2) have "equal_fn t (key e0) (key f0)" by simp
    with assms(1,2) a(1) b(1) e0(1) f0(1) show "a = b"
      unfolding keys_inv_def by blast
  qed
qed

lemma absent_everywhere:
  assumes "table_inv t bs" "keys_inv t bs" "lawful t"
    and "zc_hashtable_get_entry t (Some k) = Some None"
    and "x \<in> set (concat bs)" "ents t x = Some e"
  shows "\<not> equal_fn t k (key e)"
proof
  assume "equal_fn t k (key e)"
  from lawful_get_entry [OF assms(1,2,3,5,6) this] assms(4) show False by simp
qed

lemma keys_inv_update:
  assumes "keys_inv t bs" "lawful t" "ents t a = Some e" "equal_fn t k (key e)"
    and "a \<in> set (concat bs)"
    and t': "ents t' = (ents t)(a \<mapsto> e\<lparr>key := k, value_e := v\<rparr>)"
      "hash_fn t' = hash_fn t" "equal_fn t' = equal_fn t"
  shows "keys_inv t' bs"
  unfolding keys_inv_def
proof (intro conjI ballI allI impI)
  fix x ex assume x: "x \<in> set (concat bs)" "ents t' x = Some ex"
  show "hash_key ex = hash_fn t' (key ex)"
  proof (cases "x = a")
    case True
    with x(2) t'(1) have ex: "key ex = k" "hash_key ex = hash_key e" by auto
    from assms(1,3,5) have "hash_key e = hash_fn t (key e)" unfolding keys_inv_def by blast
    moreover from assms(2,4) have "hash_fn t k = hash_fn t (key e)" unfolding lawful_def by blast
    ultimately show ?thesis using ex t'(2) by simp
  next
    case False
    with x t' assms(1) show ?thesis unfolding keys_inv_def by simp
  qed
next
  fix x y ex ey assume x: "x \<in> set (concat bs)" "ents t' x = Some ex"
    and y: "y \<in> set (concat bs)" "ents t' y = Some ey"
    and eq: "equal_fn t' (key ex) (key ey)"
  from assms(2) have sym: "\<And>p q. equal_fn t p q \<Longrightarrow> equal_fn t q p"
    and trans: "\<And>p q r. equal_fn t p q \<Longrightarrow> equal_fn t q r \<Longrightarrow> equal_fn t p r"
    unfolding lawful_def by blast+
  from assms(1) have uniq: "\<And>p q ep eq. p \<in> set (concat bs) \<Longrightarrow> q \<in> set (concat bs) \<Longrightarrow>
      ents t p = Some ep \<Longrightarrow> ents t q = Some eq \<Longrightarrow> equal_fn t (key ep) (key eq) \<Longrightarrow> p = q"
    unfolding keys_inv_def by blast
  show "x = y"
  proof (cases "x = a")
    case xa: True
    show ?thesis
    proof (cases "y = a")
      case True
      with xa show ?thesis by simp
    next
      case False
      with y(2) t'(1) have ey: "ents t y = Some ey" by simp
      from xa x(2) t'(1) have "key ex = k" by auto
      with eq t'(3) have "equal_fn t k (key ey)" by simp
      with sym [OF assms(4)] have "equal_fn t (key e) (key ey)" by (rule trans)
      from uniq [OF assms(5) y(1) assms(3) ey this] xa show ?thesis by simp
    qed
  next
    case xa: False
    with x(2) t'(1) have ex: "ents t x = Some ex" by simp
    show ?thesis
    proof (cases "y = a")
      case True
      with y(2) t'(1) have "key ey = k" by auto
      with eq t'(3) have "equal_fn t (key ex) k" by simp
      from trans [OF this assms(4)] have "equal_fn t (key ex) (key e)" .
      from uniq [OF x(1) assms(5) ex assms(3) this] True show ?thesis by simp
    next
      case False
      with y(2) t'(1) have "ents t y = Some ey" by simp
      from uniq [OF x(1) y(1) ex this] eq t'(3) show ?thesis by simp
    qed
  qed
qed

lemma keys_inv_insert:
  assumes "keys_inv t bs" "lawful t"
    and absent: "\<forall>x\<in>set (concat bs). \<forall>e. ents t x = Some e \<longrightarrow> \<not> equal_fn t k (key e)"
    and new: "ents t' a = Some e'" "hash_key e' = hash_fn t k" "key e' = k"
    and old: "\<forall>x. x \<noteq> a \<longrightarrow> same_payload (ents t x) (ents t' x)"
    and set': "set (concat bs') = insert a (set (concat bs))"
    and cfg: "hash_fn t' = hash_fn t" "equal_fn t' = equal_fn t"
  shows "keys_inv t' bs'"
proof -
  from assms(2) have sym: "\<And>p q. equal_fn t p q \<Longrightarrow> equal_fn t q p"
    unfolding lawful_def by blast
  have orig: "x \<in> set (concat bs) \<and>
      (\<exists>e. ents t x = Some e \<and> hash_key e = hash_key ex \<and> key e = key ex)"
    if "x \<in> set (concat bs')" "ents t' x = Some ex" "x \<noteq> a" for x ex
  proof -
    from old that(3) have "same_payload (ents t x) (ents t' x)" by simp
    with that(2) have "\<exists>e. ents t x = Some e \<and> hash_key e = hash_key ex \<and> key e = key ex"
      by (auto simp: same_payload_def split: option.splits)
    with that(1,3) set' show ?thesis by simp
  qed
  from assms(1) have uniq: "\<And>p q ep eq. p \<in> set (concat bs) \<Longrightarrow> q \<in> set (concat bs) \<Longrightarrow>
      ents t p = Some ep \<Longrightarrow> ents t q = Some eq \<Longrightarrow> equal_fn t (key ep) (key eq) \<Longrightarrow> p = q"
    unfolding keys_inv_def by blast
  show ?thesis
    unfolding keys_inv_def
  proof (intro conjI ballI allI impI)
    fix x ex assume x: "x \<in> set (concat bs')" "ents t' x = Some ex"
    show "hash_key ex = hash_fn t' (key ex)"
    proof (cases "x = a")
      case True
      with x(2) new cfg show ?thesis by simp
    next
      case False
      from orig [OF x False] obtain e where e: "x \<in> set (concat bs)" "ents t x = Some e"
        "hash_key e = hash_key ex" "key e = key ex" by blast
      from assms(1) e(1,2) have "hash_key e = hash_fn t (key e)" unfolding keys_inv_def by blast
      with e cfg show ?thesis by simp
    qed
  next
    fix x y ex ey assume x: "x \<in> set (concat bs')" "ents t' x = Some ex"
      and y: "y \<in> set (concat bs')" "ents t' y = Some ey"
      and eq: "equal_fn t' (key ex) (key ey)"
    show "x = y"
    proof (cases "x = a")
      case xa: True
      show ?thesis
      proof (cases "y = a")
        case True
        with xa show ?thesis by simp
      next
        case False
        from orig [OF y False] obtain e where e: "y \<in> set (concat bs)" "ents t y = Some e"
          "key e = key ey" by blast
        from xa x(2) new have "key ex = k" by simp
        with eq cfg e(3) have "equal_fn t k (key e)" by simp
        with absent e(1,2) show ?thesis by blast
      qed
    next
      case xa: False
      from orig [OF x xa] obtain e where e: "x \<in> set (concat bs)" "ents t x = Some e"
        "key e = key ex" by blast
      show ?thesis
      proof (cases "y = a")
        case True
        with y(2) new have "key ey = k" by simp
        with eq cfg e(3) have "equal_fn t (key e) k" by simp
        from sym [OF this] absent e(1,2) show ?thesis by blast
      next
        case False
        from orig [OF y False] obtain f where f: "y \<in> set (concat bs)" "ents t y = Some f"
          "key f = key ey" by blast
        from eq cfg e(3) f(3) have "equal_fn t (key e) (key f)" by simp
        from uniq [OF e(1) f(1) e(2) f(2) this] show ?thesis .
      qed
    qed
  qed
qed

section \<open>Put of an absent key\<close>

lemma put_insert:
  assumes inv: "table_inv t bs"
    and absent: "zc_hashtable_get_entry t (Some k) = Some None"
    and fresh: "ents t a = None"
  shows "\<exists>t'. zc_hashtable_put True (Some a) t (Some k) v = Some (0, t') \<and>
           put_inserted t bs a k v t'"
proof (cases "real (nelem t) > real (tab_size t) * 1.3")
  case False
  from inv have n: "0 < tab_size t" and len: "length bs = tab_size t"
    by (simp_all add: table_inv_def bucket_chains_def)
  from put_link_table [OF inv fresh, of k v]
  obtain h' where r: "put_link a k v t
      = Some (0, t\<lparr>ents := h', tab := (tab t)[home t k := Some a], nelem := nelem t + 1\<rparr>)"
    "table_inv (t\<lparr>ents := h', tab := (tab t)[home t k := Some a], nelem := nelem t + 1\<rparr>)
       (bs[home t k := a # bs ! home t k])"
    "h' a = Some \<lparr>hash_key = hash_fn t k, key = k, value_e = v,
                  next_e = tab t ! home t k, prev = None\<rparr>"
    "\<forall>x. x \<noteq> a \<longrightarrow> same_payload (ents t x) (h' x)"
    by blast
  have pc: "put_chains t bs a k = bs[home t k := a # bs ! home t k]"
    using False by (simp add: put_chains_def)
  have run: "zc_hashtable_put True (Some a) t (Some k) v
      = Some (0, t\<lparr>ents := h', tab := (tab t)[home t k := Some a], nelem := nelem t + 1\<rparr>)"
    using False r(1) by (simp add: put_absent [OF absent])
  have hl: "home t k < length bs" using n len by (simp add: home_less)
  have st: "set (concat (put_chains t bs a k)) = insert a (set (concat bs))"
    using hl by (simp add: pc set_concat_push)
  define t' where "t' = t\<lparr>ents := h', tab := (tab t)[home t k := Some a], nelem := nelem t + 1\<rparr>"
  define e' :: "('a, 'b) zc_hashtable_entry"
    where "e' = \<lparr>hash_key = hash_fn t k, key = k, value_e = v,
                  next_e = tab t ! home t k, prev = None\<rparr>"
  have hm: "home t' k = home t k" by (simp add: home_def t'_def)
  have hd': "hd (put_chains t bs a k ! home t' k) = a" using hl by (simp add: pc hm)
  have flds: "tab_size t' = tab_size t" "nelem t' = nelem t + 1" "ents t' a = Some e'"
    "hash_key e' = hash_fn t k" "key e' = k" "value_e e' = v" "prev e' = None"
    "hash_fn t' = hash_fn t" "equal_fn t' = equal_fn t"
    "key_del_fn t' = key_del_fn t" "value_del_fn t' = value_del_fn t" "del_log t' = del_log t"
    using r(3) by (simp_all add: t'_def e'_def)
  have pay: "\<forall>x. x \<noteq> a \<longrightarrow> same_payload (ents t x) (ents t' x)"
    using r(4) by (simp add: t'_def)
  have "put_inserted t bs a k v t'"
    unfolding put_inserted_def
    using r(2) [folded t'_def pc] False st hd' flds pay by simp
  with run [folded t'_def] show ?thesis by blast
next
  case True
  from inv have n: "0 < tab_size t" and len: "length bs = tab_size t"
    by (simp_all add: table_inv_def bucket_chains_def)
  from rehash_table [OF inv]
  obtain h1 tb1 where rh: "zc_hashtable_rehash True t
      = Some (0, t\<lparr>ents := h1, tab := tb1, tab_size := 2 * tab_size t\<rparr>)"
    "table_inv (t\<lparr>ents := h1, tab := tb1, tab_size := 2 * tab_size t\<rparr>) (rehashed_chains t bs)"
    "\<forall>x. same_payload (ents t x) (h1 x)"
    by blast
  define t1 where "t1 = t\<lparr>ents := h1, tab := tb1, tab_size := 2 * tab_size t\<rparr>"
  from rh(3) fresh have fresh1: "ents t1 a = None"
    by (auto simp: t1_def same_payload_def split: option.splits dest: spec [of _ a])
  from put_link_table [OF rh(2) [folded t1_def] fresh1, of k v]
  obtain h' where r: "put_link a k v t1
      = Some (0, t1\<lparr>ents := h', tab := (tab t1)[home t1 k := Some a], nelem := nelem t1 + 1\<rparr>)"
    "table_inv (t1\<lparr>ents := h', tab := (tab t1)[home t1 k := Some a], nelem := nelem t1 + 1\<rparr>)
       ((rehashed_chains t bs)[home t1 k := a # rehashed_chains t bs ! home t1 k])"
    "h' a = Some \<lparr>hash_key = hash_fn t1 k, key = k, value_e = v,
                  next_e = tab t1 ! home t1 k, prev = None\<rparr>"
    "\<forall>x. x \<noteq> a \<longrightarrow> same_payload (ents t1 x) (h' x)"
    by blast
  define t' where "t' = t1\<lparr>ents := h', tab := (tab t1)[home t1 k := Some a], nelem := nelem t1 + 1\<rparr>"
  have hm1: "home t1 k = unat (hash_fn t k) mod (2 * tab_size t)"
    by (simp add: home_def t1_def)
  have hm': "home t' k = home t1 k" by (simp add: home_def t'_def)
  have pc: "put_chains t bs a k
      = (rehashed_chains t bs)[home t1 k := a # rehashed_chains t bs ! home t1 k]"
    using True by (simp add: put_chains_def hm1 Let_def)
  have run: "zc_hashtable_put True (Some a) t (Some k) v = Some (0, t')"
    using True rh(1) r(1) by (simp add: put_absent [OF absent] t1_def [symmetric] t'_def)
  have lr: "length (rehashed_chains t bs) = 2 * tab_size t"
    by (simp add: rehashed_chains_def)
  have hl: "home t1 k < length (rehashed_chains t bs)" using n by (simp add: hm1 lr)
  have st: "set (concat (put_chains t bs a k)) = insert a (set (concat bs))"
    using hl n by (simp add: pc set_concat_push set_rehashed_chains)
  have pay: "\<forall>x. x \<noteq> a \<longrightarrow> same_payload (ents t x) (ents t' x)"
  proof (intro allI impI)
    fix x assume "x \<noteq> a"
    with r(4) have "same_payload (ents t1 x) (h' x)" by simp
    moreover from rh(3) have "same_payload (ents t x) (ents t1 x)" by (simp add: t1_def)
    ultimately show "same_payload (ents t x) (ents t' x)"
      by (simp add: t'_def same_payload_trans)
  qed
  define e' :: "('a, 'b) zc_hashtable_entry"
    where "e' = \<lparr>hash_key = hash_fn t k, key = k, value_e = v,
                  next_e = tab t1 ! home t1 k, prev = None\<rparr>"
  have hd': "hd (put_chains t bs a k ! home t' k) = a" using hl by (simp add: pc hm')
  have flds: "tab_size t' = 2 * tab_size t" "nelem t' = nelem t + 1" "ents t' a = Some e'"
    "hash_key e' = hash_fn t k" "key e' = k" "value_e e' = v" "prev e' = None"
    "hash_fn t' = hash_fn t" "equal_fn t' = equal_fn t"
    "key_del_fn t' = key_del_fn t" "value_del_fn t' = value_del_fn t" "del_log t' = del_log t"
    using r(3) by (simp_all add: t'_def t1_def e'_def)
  have "put_inserted t bs a k v t'"
    unfolding put_inserted_def
    using r(2) [folded t'_def pc] True st hd' flds pay by simp
  with run show ?thesis by blast
qed

lemma put_insertedD:
  assumes "put_inserted t bs a k v t'"
  shows "table_inv t' (put_chains t bs a k)"
    and "tab_size t' = (if real (nelem t) > real (tab_size t) * 1.3
                        then 2 * tab_size t else tab_size t)"
    and "nelem t' = nelem t + 1"
    and "set (concat (put_chains t bs a k)) = insert a (set (concat bs))"
    and "hd (put_chains t bs a k ! home t' k) = a"
    and "\<exists>e'. ents t' a = Some e' \<and> hash_key e' = hash_fn t k \<and> key e' = k \<and>
           value_e e' = v \<and> prev e' = None"
    and "\<forall>x. x \<noteq> a \<longrightarrow> same_payload (ents t x) (ents t' x)"
    and "hash_fn t' = hash_fn t" and "equal_fn t' = equal_fn t"
    and "key_del_fn t' = key_del_fn t" and "value_del_fn t' = value_del_fn t"
    and "del_log t' = del_log t"
  using assms unfolding put_inserted_def by simp_all

lemma lawful_cong:
  assumes "lawful t" "hash_fn t' = hash_fn t" "equal_fn t' = equal_fn t"
  shows "lawful t'"
  using assms(1) unfolding lawful_def assms(2,3) .

lemma put_insert_keys:
  assumes inv: "table_inv t bs" and keys: "keys_inv t bs" and law: "lawful t"
    and absent: "zc_hashtable_get_entry t (Some k) = Some None"
    and ins: "put_inserted t bs a k v t'"
  shows "keys_inv t' (put_chains t bs a k)" and "lawful t'"
proof -
  note d = put_insertedD [OF ins]
  from d(6) obtain e' where e': "ents t' a = Some e'" "hash_key e' = hash_fn t k" "key e' = k"
    by (elim exE conjE)
  have ab: "\<forall>x\<in>set (concat bs). \<forall>e. ents t x = Some e \<longrightarrow> \<not> equal_fn t k (key e)"
  proof (intro ballI allI impI)
    fix x e assume "x \<in> set (concat bs)" "ents t x = Some e"
    then show "\<not> equal_fn t k (key e)"
      by (rule absent_everywhere [OF inv keys law absent])
  qed
  show "keys_inv t' (put_chains t bs a k)"
    by (rule keys_inv_insert [OF keys law ab e' d(7) d(4) d(8) d(9)])
  show "lawful t'" by (rule lawful_cong [OF law d(8) d(9)])
qed

lemma get_entry_preserved:
  assumes inv': "table_inv t' bs'" and keys': "keys_inv t' bs'" and law': "lawful t'"
    and inv: "table_inv t bs"
    and found: "zc_hashtable_get_entry t (Some k) = Some (Some p)"
    and mem: "set (concat bs) \<subseteq> set (concat bs')"
    and pay: "same_payload (ents t p) (ents t' p)"
    and eq: "equal_fn t' = equal_fn t"
  shows "zc_hashtable_get_entry t' (Some k) = Some (Some p) \<and>
         zc_hashtable_get t' (Some k) = zc_hashtable_get t (Some k)"
proof -
  from inv have ch: "bucket_chains t bs" and n: "0 < tab_size t" and len: "length bs = tab_size t"
    by (simp_all add: table_inv_def bucket_chains_def)
  from get_entry_find [OF ch, of k] found have "find (key_matches t k) (bs ! home t k) = Some p"
    by simp
  from find_Some_D [OF this] have p: "p \<in> set (bs ! home t k)" "key_matches t k p" by simp_all
  from p(1) n len have pc: "p \<in> set (concat bs)"
    unfolding in_concat_nth using home_less [of t k] by auto
  from p(2) obtain e where e: "ents t p = Some e" "equal_fn t k (key e)"
    by (auto simp: key_matches_def split: option.splits)
  from pay e(1) obtain e' where e': "ents t' p = Some e'" "key e' = key e" "value_e e' = value_e e"
    by (auto dest: same_payload_SomeD)
  from pc mem have "p \<in> set (concat bs')" by auto
  from lawful_get_entry [OF inv' keys' law' this e'(1)] e(2) eq e'(2)
  have g: "zc_hashtable_get_entry t' (Some k) = Some (Some p)" by simp
  with found e(1) e'(1,3) show ?thesis by (simp add: zc_hashtable_get_def)
qed

section \<open>Failing allocations\<close>

lemma put_rehash_alloc_fails:
  assumes "zc_hashtable_get_entry t (Some k) = Some None"
    and "real (nelem t) > real (tab_size t) * 1.3"
  shows "zc_hashtable_put False pc t (Some k) v = Some (- 1, t)"
  using assms(2) by (simp add: put_absent [OF assms(1)] zc_hashtable_rehash_def)

lemma put_entry_alloc_fails:
  assumes "zc_hashtable_get_entry t (Some k) = Some None"
    and "\<not> real (nelem t) > real (tab_size t) * 1.3"
  shows "zc_hashtable_put tc None t (Some k) v = Some (- 1, t)"
  using assms(2) by (simp add: put_absent [OF assms(1)])

lemma put_entry_alloc_fails_after_rehash:
  assumes inv: "table_inv t bs"
    and absent: "zc_hashtable_get_entry t (Some k) = Some None"
    and thr: "real (nelem t) > real (tab_size t) * 1.3"
  shows "\<exists>h' tb'. zc_hashtable_put True None t (Some k) v
           = Some (- 1, t\<lparr>ents := h', tab := tb', tab_size := 2 * tab_size t\<rparr>) \<and>
           table_inv (t\<lparr>ents := h', tab := tb', tab_size := 2 * tab_size t\<rparr>)
             (rehashed_chains t bs) \<and>
           (\<forall>x. same_payload (ents t x) (h' x))"
proof -
  from rehash_table [OF inv]
  obtain h1 tb1 where rh: "zc_hashtable_rehash True t
      = Some (0, t\<lparr>ents := h1, tab := tb1, tab_size := 2 * tab_size t\<rparr>)"
    "table_inv (t\<lparr>ents := h1, tab := tb1, tab_size := 2 * tab_size t\<rparr>) (rehashed_chains t bs)"
    "\<forall>x. same_payload (ents t x) (h1 x)"
    by blast
  from thr rh(1) have "zc_hashtable_put True None t (Some k) v
      = Some (- 1, t\<lparr>ents := h1, tab := tb1, tab_size := 2 * tab_size t\<rparr>)"
    by (simp add: put_absent [OF absent])
  with rh(2,3) show ?thesis by blast
qed

lemma get_entry_total:
  assumes "table_inv t bs"
  shows "\<exists>r. zc_hashtable_get_entry t (Some k) = Some r"
  using get_entry_find [of t bs k] assms by (simp add: table_inv_def)

section \<open>Evaluation of the invariants\<close>

lemma bucket_chains_code [code]:
  "bucket_chains t bs \<longleftrightarrow>
     0 < tab_size t \<and> length (tab t) = tab_size t \<and> length bs = tab_size t \<and>
     list_all (\<lambda>i. dll (ents t) None (tab t ! i) (bs ! i)) [0..<tab_size t]"
  by (auto simp: bucket_chains_def list_all_iff)

lemma ex_Some_case:
  "(\<exists>e. x = Some e \<and> P e) \<longleftrightarrow> (case x of None \<Rightarrow> False | Some e \<Rightarrow> P e)"
  by (cases x) auto

lemma bucket_inv_code [code]:
  "bucket_inv t bs \<longleftrightarrow>
     list_all (\<lambda>i. list_all (\<lambda>a. case ents t a of None \<Rightarrow> False
                                  | Some e \<Rightarrow> unat (hash_key e) mod tab_size t = i) (bs ! i))
       [0..<length bs]"
  by (simp add: bucket_inv_def list_all_iff ex_Some_case Ball_def)

lemma keys_inv_code [code]:
  "keys_inv t bs \<longleftrightarrow>
     list_all (\<lambda>a. case ents t a of None \<Rightarrow> True | Some e \<Rightarrow> hash_key e = hash_fn t (key e))
       (concat bs) \<and>
     list_all (\<lambda>a. list_all (\<lambda>b.
         case ents t a of None \<Rightarrow> True
         | Some e \<Rightarrow> (case ents t b of None \<Rightarrow> True
                      | Some f \<Rightarrow> \<not> equal_fn t (key e) (key f) \<or> a = b)) (concat bs)) (concat bs)"
  unfolding keys_inv_def list_all_iff
  by (intro arg_cong2 [of _ _ _ _ "(\<and>)"] ball_cong refl) (auto split: option.splits)

lemma rehash_config:
  "zc_hashtable_rehash c t = Some (rc, t1) \<Longrightarrow> hash_fn t1 = hash_fn t \<and> equal_fn t1 = equal_fn t"
  by (auto simp: zc_hashtable_rehash_def Let_def split: if_splits Option.bind_splits)

lemma put_link_config:
  "put_link a k v t = Some (rc, t1) \<Longrightarrow> hash_fn t1 = hash_fn t \<and> equal_fn t1 = equal_fn t"
  by (auto simp: put_link_def Let_def split: if_splits Option.bind_splits)

lemma put_config:
  assumes "zc_hashtable_put tc pc t ak v = Some (rc, t')"
  shows "hash_fn t' = hash_fn t \<and> equal_fn t' = equal_fn t"
proof (cases ak)
  case None
  with assms show ?thesis by (simp add: zc_hashtable_put_def zc_assert_def)
next
  case (Some k)
  show ?thesis
  proof (cases "zc_hashtable_get_entry t (Some k)")
    case None
    with assms Some show ?thesis
      by (auto simp: zc_hashtable_put_def zc_hashtable_get_entry_def zc_assert_def
          split: Option.bind_splits)
  next
    case found: (Some r)
    show ?thesis
    proof (cases r)
      case None
      with found have ab: "zc_hashtable_get_entry t (Some k) = Some None" by simp
      from assms [unfolded Some put_absent [OF ab]] show ?thesis
        by (auto split: Option.bind_splits if_splits option.splits
            dest!: rehash_config put_link_config)
    next
      case (Some a)
      with found have f: "zc_hashtable_get_entry t (Some k) = Some (Some a)" by simp
      with assms \<open>ak = Some k\<close> show ?thesis
        by (auto simp: zc_hashtable_put_def zc_hashtable_get_entry_def zc_assert_def
            call_del_fns_def split: Option.bind_splits)
    qed
  qed
qed

lemma put_seq_config:
  "put_seq t a kvs = Some t' \<Longrightarrow> hash_fn t' = hash_fn t \<and> equal_fn t' = equal_fn t"
proof (induction kvs arbitrary: t a)
  case Nil
  then show ?case by simp
next
  case (Cons kv kvs)
  obtain k v where kv: "kv = (k, v)" by (cases kv)
  from Cons.prems kv obtain t1 where
    1: "zc_hashtable_put True (Some a) t (Some k) (Some v) = Some (0, t1)"
    and 2: "put_seq t1 (Suc a) kvs = Some t'"
    by (auto split: option.splits if_splits)
  from put_config [OF 1] Cons.IH [OF 2] show ?case by simp
qed

lemma nat_table_lawful:
  assumes "\<not> Option.is_none
    (put_seq (the (zc_hashtable_new True True n (Some of_nat) (Some (=)) True True)) 1 kvs)"
    and "0 < n"
  shows "lawful (nat_table n kvs)"
proof -
  from assms(1) obtain t where
    t: "put_seq (the (zc_hashtable_new True True n (Some of_nat) (Some (=)) True True)) 1 kvs = Some t"
    by (auto simp: Option.is_none_def)
  from put_seq_config [OF t] assms(2)
  have "hash_fn t = of_nat" "equal_fn t = (=)" by (simp_all add: new_table)
  then have "lawful t" by (simp add: lawful_def)
  with t show ?thesis by (simp add: nat_table_def)
qed

section \<open>Put on a key that is present\<close>

text \<open>
  C9. A Put that updates an existing entry (its scan stops at the entry \<open>a\<close>)
  changes the key and the value of that entry and nothing else in the store or the
  table: the cached hash, the \<open>next\<close> and \<open>prev\<close> links of the entry, every other
  entry, the bucket array, the capacity and the count are as before, and every
  chain holds the same entries in the same order.
\<close>

theorem put_update_frame:
  assumes "table_inv t bs" and "zc_hashtable_get_entry t (Some k) = Some (Some a)"
  shows "\<exists>e t'. ents t a = Some e \<and>
           zc_hashtable_put tab_calloc p_calloc t (Some k) v = Some (0, t') \<and>
           ents t' a = Some (e\<lparr>key := k, value_e := v\<rparr>) \<and>
           hash_key (e\<lparr>key := k, value_e := v\<rparr>) = hash_key e \<and>
           next_e (e\<lparr>key := k, value_e := v\<rparr>) = next_e e \<and>
           prev (e\<lparr>key := k, value_e := v\<rparr>) = prev e \<and>
           (\<forall>x. x \<noteq> a \<longrightarrow> ents t' x = ents t x) \<and>
           tab t' = tab t \<and> tab_size t' = tab_size t \<and> nelem t' = nelem t \<and>
           hash_fn t' = hash_fn t \<and> equal_fn t' = equal_fn t \<and>
           key_del_fn t' = key_del_fn t \<and> value_del_fn t' = value_del_fn t \<and>
           table_inv t' bs"
proof -
  from assms(1) have ch: "bucket_chains t bs" by (simp add: table_inv_def)
  from get_entry_find [OF ch, of k] assms(2)
  have "find (key_matches t k) (bs ! home t k) = Some a" by simp
  from find_Some_D [OF this] obtain e where e: "ents t a = Some e"
    by (auto simp: key_matches_def split: option.splits)
  define t' where "t' = (call_del_fns t (key e) (value_e e))
                          \<lparr>ents := (ents t)(a \<mapsto> e\<lparr>key := k, value_e := v\<rparr>)\<rparr>"
  have run: "zc_hashtable_put tab_calloc p_calloc t (Some k) v = Some (0, t')"
    unfolding t'_def by (rule put_update [OF assms(2) e])
  have t'_eq: "t' = t\<lparr>ents := (ents t)(a \<mapsto> e\<lparr>key := k, value_e := v\<rparr>),
      del_log := del_log (call_del_fns t (key e) (value_e e))\<rparr>"
    by (simp add: t'_def call_del_fns_def)
  have "bucket_chains t' bs"
    unfolding t'_eq by (rule chains_payload_update [OF ch e])
  moreover have "bucket_inv t' bs"
    unfolding bucket_inv_def
  proof (intro allI impI ballI)
    fix i x assume "i < length bs" "x \<in> set (bs ! i)"
    with assms(1) obtain ex where "ents t x = Some ex" "unat (hash_key ex) mod tab_size t = i"
      unfolding table_inv_def bucket_inv_def by blast
    with e show "\<exists>e'. ents t' x = Some e' \<and> unat (hash_key e') mod tab_size t' = i"
      by (cases "x = a") (auto simp: t'_def)
  qed
  moreover from assms(1) have "count_inv t' bs"
    by (simp add: table_inv_def count_inv_def t'_def)
  ultimately have "table_inv t' bs" by (simp add: table_inv_def)
  with e run show ?thesis by (intro exI [of _ e] exI [of _ t']) (simp add: t'_def)
qed

theorem put_update_frame_witness:
  "\<exists>e t'. ents (nat_table 2 [(0, 10), (2, 12), (4, 14)]) 2 = Some e \<and>
     zc_hashtable_put True (Some 9) (nat_table 2 [(0, 10), (2, 12), (4, 14)]) (Some 2) (Some 7)
       = Some (0, t') \<and>
     ents t' 2 = Some (e\<lparr>key := 2, value_e := Some 7\<rparr>) \<and>
     (\<forall>x. x \<noteq> 2 \<longrightarrow> ents t' x = ents (nat_table 2 [(0, 10), (2, 12), (4, 14)]) x) \<and>
     tab t' = tab (nat_table 2 [(0, 10), (2, 12), (4, 14)]) \<and>
     table_inv t' [[3, 2, 1], []]"
proof -
  let ?t = "nat_table 2 [(0, 10), (2, 12), (4, 14)]"
  have 1: "table_inv ?t [[3, 2, 1], []]" by code_simp
  have 2: "zc_hashtable_get_entry ?t (Some 2) = Some (Some 2)" by code_simp
  from put_update_frame [OF 1 2, of True "Some 9" "Some 7"] show ?thesis by blast
qed

section \<open>Rehash\<close>

text \<open>
  C3. On a well-formed table a rehash whose allocation succeeds returns 0 with a
  table of exactly twice the capacity and the same count. Its result does not
  depend on \<open>hash_fn\<close>: with any other hash function \<open>f\<close> in the table the rehash
  yields the same table, so no hash is computed. The new chain of bucket \<open>j\<close>
  holds the entries whose cached hash is \<open>j\<close> modulo the new capacity
  (\<open>rehash_ix\<close>), in the reverse of the order in which the old table is walked,
  since each is pushed at the head. Every entry of the old table is in a new
  chain, with the cached hash, key and value it had.
\<close>

theorem rehash_doubles_and_relinks:
  assumes "table_inv t bs"
  shows "\<exists>t'. zc_hashtable_rehash True t = Some (0, t') \<and>
           tab_size t' = 2 * tab_size t \<and> nelem t' = nelem t \<and>
           zc_hashtable_rehash True (t\<lparr>hash_fn := f\<rparr>) = Some (0, t'\<lparr>hash_fn := f\<rparr>) \<and>
           table_inv t' (rehashed_chains t bs) \<and>
           (\<forall>j<2 * tab_size t.
              rehashed_chains t bs ! j = rev (filter (\<lambda>a. rehash_ix t a = j) (concat bs))) \<and>
           set (concat (rehashed_chains t bs)) = set (concat bs) \<and>
           (\<forall>a. same_payload (ents t a) (ents t' a))"
proof -
  from assms have n: "0 < tab_size t" by (simp add: table_inv_def bucket_chains_def)
  from rehash_table [OF assms]
  obtain h' tb' where r: "zc_hashtable_rehash True t
      = Some (0, t\<lparr>ents := h', tab := tb', tab_size := 2 * tab_size t\<rparr>)"
    "table_inv (t\<lparr>ents := h', tab := tb', tab_size := 2 * tab_size t\<rparr>) (rehashed_chains t bs)"
    "\<forall>x. same_payload (ents t x) (h' x)"
    by blast
  define t' where "t' = t\<lparr>ents := h', tab := tb', tab_size := 2 * tab_size t\<rparr>"
  have "zc_hashtable_rehash True (t\<lparr>hash_fn := f\<rparr>) = Some (0, t'\<lparr>hash_fn := f\<rparr>)"
    by (simp add: rehash_ignores_hash_fn r(1) t'_def)
  moreover have "\<forall>j<2 * tab_size t.
      rehashed_chains t bs ! j = rev (filter (\<lambda>a. rehash_ix t a = j) (concat bs))"
    using n by (simp add: rehashed_chains_nth)
  moreover have "set (concat (rehashed_chains t bs)) = set (concat bs)"
    using n by (rule set_rehashed_chains)
  ultimately show ?thesis
    using r by (intro exI [of _ t']) (simp add: t'_def)
qed

theorem rehash_doubles_and_relinks_witness:
  "\<exists>t'. zc_hashtable_rehash True (nat_table 2 [(0, 10), (2, 12), (4, 14)]) = Some (0, t') \<and>
     tab_size t' = 2 * tab_size (nat_table 2 [(0, 10), (2, 12), (4, 14)]) \<and>
     nelem t' = nelem (nat_table 2 [(0, 10), (2, 12), (4, 14)]) \<and>
     table_inv t' (rehashed_chains (nat_table 2 [(0, 10), (2, 12), (4, 14)]) [[3, 2, 1], []]) \<and>
     rehashed_chains (nat_table 2 [(0, 10), (2, 12), (4, 14)]) [[3, 2, 1], []]
       = [[1, 3], [], [2], []]"
proof -
  let ?t = "nat_table 2 [(0, 10), (2, 12), (4, 14)]"
  have 1: "table_inv ?t [[3, 2, 1], []]" by code_simp
  have 2: "rehashed_chains ?t [[3, 2, 1], []] = [[1, 3], [], [2], []]" by code_simp
  from rehash_doubles_and_relinks [OF 1] 2 show ?thesis by blast
qed

section \<open>Iteration over a table\<close>

text \<open>
  C7, as amended. On a well-formed table with chains \<open>bs\<close>, of any number of
  entries, the traversal by Begin and repeated Next returns (it reaches End) and
  visits the entries in the order \<open>concat bs\<close>: ascending bucket index, and within a
  bucket the chain from its head. No entry is visited twice and the number of visits
  is the count. The order within a bucket is the order of linking, not of insertion:
  a Put that inserts pushes the new entry at the head of its chain, after the rehash
  it may have made, and the rehash reverses the entries it relinks into a bucket
  (\<open>put_chains\<close>).
\<close>

theorem iteration_visits_every_entry_once:
  assumes "table_inv t bs"
  shows "visit_all t = Some (concat bs) \<and> distinct (concat bs) \<and>
         length (concat bs) = nelem t \<and>
         (zc_hashtable_get_entry t (Some k) = Some None \<longrightarrow> ents t a = None \<longrightarrow>
            (\<exists>t'. zc_hashtable_put True (Some a) t (Some k) v = Some (0, t') \<and>
                  visit_all t' = Some (concat (put_chains t bs a k)) \<and>
                  hd (put_chains t bs a k ! home t' k) = a))"
proof -
  have "\<exists>t'. zc_hashtable_put True (Some a) t (Some k) v = Some (0, t') \<and>
      visit_all t' = Some (concat (put_chains t bs a k)) \<and>
      hd (put_chains t bs a k ! home t' k) = a"
    if "zc_hashtable_get_entry t (Some k) = Some None" "ents t a = None"
  proof -
    from put_insert [OF assms that, of v]
    obtain t' where t': "zc_hashtable_put True (Some a) t (Some k) v = Some (0, t')"
      "put_inserted t bs a k v t'" by blast
    note d = put_insertedD [OF t'(2)]
    from visit_all_chains [OF d(1)] d(5) t'(1) show ?thesis by blast
  qed
  moreover from assms have "length (concat bs) = nelem t"
    by (simp add: table_inv_def count_inv_def)
  ultimately show ?thesis
    using visit_all_chains [OF assms] table_inv_distinct [OF assms] by blast
qed

theorem iteration_visits_every_entry_once_witness:
  "visit_all (nat_table 3 [(0, 10), (3, 13), (1, 11), (4, 14)]) = Some [2, 1, 4, 3] \<and>
   distinct [2, 1, 4, 3 :: nat] \<and>
   nelem (nat_table 3 [(0, 10), (3, 13), (1, 11), (4, 14)]) = 4 \<and>
   (\<exists>t'. zc_hashtable_put True (Some 9) (nat_table 3 [(0, 10), (3, 13), (1, 11), (4, 14)])
            (Some 7) (Some 17) = Some (0, t') \<and>
         visit_all t' = Some [1, 9, 3, 2, 4])"
proof -
  let ?t = "nat_table 3 [(0, 10), (3, 13), (1, 11), (4, 14)]"
  have 1: "table_inv ?t [[2, 1], [4, 3], []]" by code_simp
  have 2: "zc_hashtable_get_entry ?t (Some 7) = Some None" by code_simp
  have 3: "ents ?t 9 = None" by code_simp
  have 4: "put_chains ?t [[2, 1], [4, 3], []] 9 7 = [[1], [9, 3], [], [2], [4], []]"
    by code_simp
  from iteration_visits_every_entry_once [OF 1, of 7 9 "Some 17", unfolded 4] 2 3
  show ?thesis by auto
qed

text \<open>
  C7 as stated fails on the order within a bucket. The keys 0, 2 and 4 are inserted
  in this order into a table of one bucket, at the addresses 1, 2 and 3. The third
  Put rehashes; all three entries are in bucket 0 of the new table. The traversal
  visits the entry of key 0 before the entry of key 2, which was inserted after it.
\<close>

theorem iteration_order_counterexample:
  "visit_all (nat_table 1 [(0, 10), (2, 12), (4, 14)]) = Some [3, 1, 2] \<and>
   map (\<lambda>a. map_option key (ents (nat_table 1 [(0, 10), (2, 12), (4, 14)]) a)) [3, 1, 2]
     = [Some 4, Some 0, Some 2] \<and>
   tab (nat_table 1 [(0, 10), (2, 12), (4, 14)]) = [Some 3, None]"
  by code_simp

section \<open>Removal\<close>

lemma remove_then_absent:
  assumes inv: "table_inv t bs" and keys: "keys_inv t bs" and law: "lawful t"
    and a: "a \<in> set (bs ! home t k)" "key_matches t k a"
    and inv': "table_inv t' (bs[home t k := remove1 a (bs ! home t k)])"
    and pay: "\<forall>x. x \<noteq> a \<longrightarrow> same_payload (ents t x) (ents t' x)"
    and cfg: "hash_fn t' = hash_fn t" "equal_fn t' = equal_fn t" "tab_size t' = tab_size t"
  shows "zc_hashtable_get_entry t' (Some k) = Some None"
proof -
  from inv have n: "0 < tab_size t" and len: "length bs = tab_size t"
    and d: "dll (ents t) None (tab t ! home t k) (bs ! home t k)"
    by (simp_all add: table_inv_def bucket_chains_def home_less)
  from d have dist: "distinct (bs ! home t k)" by (rule dll_distinct)
  from cfg have hm: "home t' k = home t k" by (simp add: home_def)
  from a(2) obtain e where e: "ents t a = Some e" "equal_fn t k (key e)"
    by (auto simp: key_matches_def split: option.splits)
  from a(1) n len have ac: "a \<in> set (concat bs)"
    unfolding in_concat_nth using home_less [of t k] by auto
  have none: "\<not> key_matches t' k b" if b: "b \<in> set (remove1 a (bs ! home t k))" for b
  proof
    assume "key_matches t' k b"
    then obtain f' where f': "ents t' b = Some f'" "equal_fn t' k (key f')"
      by (auto simp: key_matches_def split: option.splits)
    from b dist have ba: "b \<noteq> a" "b \<in> set (bs ! home t k)" by auto
    from ba(2) n len have bc: "b \<in> set (concat bs)"
      unfolding in_concat_nth using home_less [of t k] by auto
    from pay ba(1) have "same_payload (ents t b) (ents t' b)" by simp
    with f'(1) obtain f where f: "ents t b = Some f" "key f = key f'"
      by (auto simp: same_payload_def split: option.splits)
    from law e(2) have "equal_fn t (key e) k" unfolding lawful_def by blast
    moreover from f'(2) f(2) cfg(2) have "equal_fn t k (key f)" by simp
    ultimately have "equal_fn t (key e) (key f)" using law unfolding lawful_def by blast
    with keys ac bc e(1) f(1) have "a = b" unfolding keys_inv_def by blast
    with ba(1) show False by simp
  qed
  from inv' have ch': "bucket_chains t' (bs[home t k := remove1 a (bs ! home t k)])"
    by (simp add: table_inv_def)
  have "find (key_matches t' k) (remove1 a (bs ! home t k)) = None"
    using none by (simp add: find_None_iff)
  with get_entry_find [OF ch', of k] n len show ?thesis
    by (simp add: hm home_less)
qed

section \<open>Preservation of the invariants\<close>

lemma put_update_table:
  assumes inv: "table_inv t bs" and found: "zc_hashtable_get_entry t (Some k) = Some (Some a)"
  shows "\<exists>t'. zc_hashtable_put tc pc t (Some k) v = Some (0, t') \<and> table_inv t' bs \<and>
           (keys_inv t bs \<longrightarrow> lawful t \<longrightarrow> keys_inv t' bs \<and> lawful t')"
proof -
  from inv have ch: "bucket_chains t bs" and n: "0 < tab_size t" and len: "length bs = tab_size t"
    by (simp_all add: table_inv_def bucket_chains_def)
  from get_entry_find [OF ch, of k] found
  have "find (key_matches t k) (bs ! home t k) = Some a" by simp
  from find_Some_D [OF this] obtain e where e: "ents t a = Some e" "equal_fn t k (key e)"
    and a: "a \<in> set (bs ! home t k)"
    by (auto simp: key_matches_def split: option.splits)
  from a n len have ac: "a \<in> set (concat bs)"
    unfolding in_concat_nth using home_less [of t k] by auto
  define t' where "t' = (call_del_fns t (key e) (value_e e))
                          \<lparr>ents := (ents t)(a \<mapsto> e\<lparr>key := k, value_e := v\<rparr>)\<rparr>"
  have run: "zc_hashtable_put tc pc t (Some k) v = Some (0, t')"
    unfolding t'_def by (rule put_update [OF found e(1)])
  have t'_eq: "t' = t\<lparr>ents := (ents t)(a \<mapsto> e\<lparr>key := k, value_e := v\<rparr>),
      del_log := del_log (call_del_fns t (key e) (value_e e))\<rparr>"
    by (simp add: t'_def call_del_fns_def)
  have "bucket_chains t' bs"
    unfolding t'_eq by (rule chains_payload_update [OF ch e(1)])
  moreover have "bucket_inv t' bs"
    unfolding bucket_inv_def
  proof (intro allI impI ballI)
    fix i x assume "i < length bs" "x \<in> set (bs ! i)"
    with inv obtain ex where "ents t x = Some ex" "unat (hash_key ex) mod tab_size t = i"
      unfolding table_inv_def bucket_inv_def by blast
    with e show "\<exists>e'. ents t' x = Some e' \<and> unat (hash_key e') mod tab_size t' = i"
      by (cases "x = a") (auto simp: t'_def)
  qed
  moreover from inv have "count_inv t' bs"
    by (simp add: table_inv_def count_inv_def t'_def)
  ultimately have inv': "table_inv t' bs" by (simp add: table_inv_def)
  have "keys_inv t' bs \<and> lawful t'" if k: "keys_inv t bs" "lawful t"
  proof
    show "keys_inv t' bs"
      by (rule keys_inv_update [OF k e ac]) (simp_all add: t'_def)
    show "lawful t'" by (rule lawful_cong [OF k(2)]) (simp_all add: t'_def)
  qed
  with run inv' show ?thesis by blast
qed

lemma put_preserves:
  assumes inv: "table_inv t bs" and fresh: "\<forall>a. pc = Some a \<longrightarrow> ents t a = None"
  shows "\<exists>rc t' bs'. zc_hashtable_put tc pc t ak v = Some (rc, t') \<and> table_inv t' bs' \<and>
           (keys_inv t bs \<longrightarrow> lawful t \<longrightarrow> keys_inv t' bs' \<and> lawful t')"
proof (cases ak)
  case None
  then have "zc_hashtable_put tc pc t ak v = Some (- 1, t)"
    by (simp add: zc_hashtable_put_def zc_assert_def)
  with inv show ?thesis by blast
next
  case (Some k)
  from get_entry_total [OF inv, of k] obtain r where r: "zc_hashtable_get_entry t (Some k) = Some r" ..
  show ?thesis
  proof (cases r)
    case (Some a)
    with r have "zc_hashtable_get_entry t (Some k) = Some (Some a)" by simp
    from put_update_table [OF inv this, of tc pc v] \<open>ak = Some k\<close> show ?thesis by blast
  next
    case None
    with r have ab: "zc_hashtable_get_entry t (Some k) = Some None" by simp
    have same: ?thesis if "zc_hashtable_put tc pc t (Some k) v = Some (- 1, t)"
      using that inv \<open>ak = Some k\<close> by blast
    have ins: ?thesis if run: "zc_hashtable_put tc pc t (Some k) v
        = zc_hashtable_put True (Some a) t (Some k) v" and pc: "pc = Some a" for a
    proof -
      from fresh pc have fr: "ents t a = None" by simp
      from put_insert [OF inv ab fr, of v]
      obtain t' where t': "zc_hashtable_put True (Some a) t (Some k) v = Some (0, t')"
        "put_inserted t bs a k v t'" by blast
      from put_insertedD(1) [OF t'(2)] have inv': "table_inv t' (put_chains t bs a k)" .
      have "keys_inv t' (put_chains t bs a k) \<and> lawful t'" if "keys_inv t bs" "lawful t"
        using put_insert_keys [OF inv that ab t'(2)] by simp
      with run t'(1) inv' \<open>ak = Some k\<close> show ?thesis by auto
    qed
    show ?thesis
    proof (cases "real (nelem t) > real (tab_size t) * 1.3")
      case thr: True
      show ?thesis
      proof (cases tc)
        case False
        with put_rehash_alloc_fails [OF ab thr, of pc v] show ?thesis by (intro same) simp
      next
        case tc: True
        show ?thesis
        proof (cases pc)
          case None
          from put_entry_alloc_fails_after_rehash [OF inv ab thr, of v]
          obtain h' tb' where f: "zc_hashtable_put True None t (Some k) v
               = Some (- 1, t\<lparr>ents := h', tab := tb', tab_size := 2 * tab_size t\<rparr>)"
            "table_inv (t\<lparr>ents := h', tab := tb', tab_size := 2 * tab_size t\<rparr>)
               (rehashed_chains t bs)"
            "\<forall>x. same_payload (ents t x) (h' x)" by blast
          from inv have n: "0 < tab_size t" by (simp add: table_inv_def bucket_chains_def)
          have "keys_inv (t\<lparr>ents := h', tab := tb', tab_size := 2 * tab_size t\<rparr>)
                 (rehashed_chains t bs) \<and>
               lawful (t\<lparr>ents := h', tab := tb', tab_size := 2 * tab_size t\<rparr>)"
            if k: "keys_inv t bs" "lawful t"
          proof
            show "keys_inv (t\<lparr>ents := h', tab := tb', tab_size := 2 * tab_size t\<rparr>)
                (rehashed_chains t bs)"
              by (rule keys_inv_same_payload [OF k(1)])
                (use f(3) n in \<open>simp_all add: set_rehashed_chains\<close>)
            show "lawful (t\<lparr>ents := h', tab := tb', tab_size := 2 * tab_size t\<rparr>)"
              by (rule lawful_cong [OF k(2)]) simp_all
          qed
          moreover from f(1) tc None \<open>ak = Some k\<close>
          have "zc_hashtable_put tc pc t ak v
              = Some (- 1, t\<lparr>ents := h', tab := tb', tab_size := 2 * tab_size t\<rparr>)" by simp
          ultimately show ?thesis using f(2)
            by (intro exI [of _ "- 1"]
                exI [of _ "t\<lparr>ents := h', tab := tb', tab_size := 2 * tab_size t\<rparr>"]
                exI [of _ "rehashed_chains t bs"]) simp
        next
          case (Some a)
          with tc show ?thesis by (intro ins [of a]) simp_all
        qed
      qed
    next
      case nthr: False
      show ?thesis
      proof (cases pc)
        case None
        with put_entry_alloc_fails [OF ab nthr, of tc v] show ?thesis by (intro same) simp
      next
        case (Some a)
        have "zc_hashtable_put tc pc t (Some k) v = zc_hashtable_put True (Some a) t (Some k) v"
          using nthr Some by (simp add: put_absent [OF ab])
        then show ?thesis using Some by (rule ins)
      qed
    qed
  qed
qed

lemma remove_keys:
  assumes inv: "table_inv t bs" and a: "a \<in> set (bs ! home t k)"
    and pay: "\<forall>x. x \<noteq> a \<longrightarrow> same_payload (ents t x) (ents t' x)"
    and cfg: "hash_fn t' = hash_fn t" "equal_fn t' = equal_fn t"
    and keys: "keys_inv t bs"
  shows "keys_inv t' (bs[home t k := remove1 a (bs ! home t k)])"
proof -
  define bs' where "bs' = bs[home t k := remove1 a (bs ! home t k)]"
  from inv have n: "0 < tab_size t" and len: "length bs = tab_size t"
    and d: "dll (ents t) None (tab t ! home t k) (bs ! home t k)"
    by (simp_all add: table_inv_def bucket_chains_def home_less)
  from d have dist: "distinct (bs ! home t k)" by (rule dll_distinct)
  have sub: "set (concat bs') \<subseteq> set (concat bs) - {a}"
  proof
    fix x assume "x \<in> set (concat bs')"
    then obtain i where i: "i < length bs" "x \<in> set (bs' ! i)"
      unfolding in_concat_nth bs'_def by auto
    show "x \<in> set (concat bs) - {a}"
    proof (cases "i = home t k")
      case True
      with i dist have xi: "x \<in> set (bs ! i)" and xa: "x \<noteq> a" by (auto simp: bs'_def)
      from xi i(1) have "x \<in> set (concat bs)" unfolding in_concat_nth by blast
      with xa show ?thesis by simp
    next
      case False
      with i have xi: "x \<in> set (bs ! i)" by (simp add: bs'_def)
      have "x \<noteq> a"
      proof
        assume "x = a"
        with xi a inv i(1) n len have "i = home t k"
          using buckets_disjoint [of t bs i "home t k" a] home_less [of t k]
          by (simp add: table_inv_def)
        with False show False by simp
      qed
      moreover from xi i(1) have "x \<in> set (concat bs)" unfolding in_concat_nth by blast
      ultimately show ?thesis by simp
    qed
  qed
  have "keys_inv t' bs'"
  proof (rule keys_inv_same_payload [OF keys])
    show "set (concat bs') \<subseteq> set (concat bs)" using sub by auto
    show "\<forall>x\<in>set (concat bs'). same_payload (ents t x) (ents t' x)"
      using sub pay by auto
  qed (fact cfg)+
  then show ?thesis by (simp add: bs'_def)
qed

lemma remove_preserves:
  assumes inv: "table_inv t bs"
  shows "\<exists>t' bs'. zc_hashtable_remove t ak = Some t' \<and> table_inv t' bs' \<and>
           (keys_inv t bs \<longrightarrow> lawful t \<longrightarrow> keys_inv t' bs' \<and> lawful t')"
proof (cases ak)
  case None
  then have "zc_hashtable_remove t ak = Some t"
    by (simp add: zc_hashtable_remove_def zc_assert_def)
  with inv show ?thesis by blast
next
  case (Some k)
  from get_entry_total [OF inv, of k] obtain r where r: "zc_hashtable_get_entry t (Some k) = Some r" ..
  show ?thesis
  proof (cases r)
    case None
    with r have "zc_hashtable_remove t (Some k) = Some t" by (intro remove_absent) simp
    with inv Some show ?thesis by blast
  next
    case found: (Some a)
    with r have f: "zc_hashtable_get_entry t (Some k) = Some (Some a)" by simp
    from remove_found [OF inv f]
    obtain e h' tb' where res0: "ents t a = Some e" "a \<in> set (bs ! home t k)"
      "key_matches t k a"
      "zc_hashtable_remove t (Some k)
         = Some ((call_del_fns t (key e) (value_e e))\<lparr>ents := h', tab := tb', nelem := nelem t - 1\<rparr>)"
      "table_inv ((call_del_fns t (key e) (value_e e))\<lparr>ents := h', tab := tb', nelem := nelem t - 1\<rparr>)
         (bs[home t k := remove1 a (bs ! home t k)])"
      "0 < nelem t" "h' a = None" "\<forall>x. x \<noteq> a \<longrightarrow> same_payload (ents t x) (h' x)"
      by blast
    note res = res0(2,4,5,8)
    define t' where "t' = (call_del_fns t (key e) (value_e e))
                            \<lparr>ents := h', tab := tb', nelem := nelem t - 1\<rparr>"
    define bs' where "bs' = bs[home t k := remove1 a (bs ! home t k)]"
    have pay: "\<forall>x. x \<noteq> a \<longrightarrow> same_payload (ents t x) (ents t' x)"
      using res(4) by (simp add: t'_def)
    have "keys_inv t' bs' \<and> lawful t'" if k: "keys_inv t bs" "lawful t"
    proof
      show "keys_inv t' bs'"
        unfolding bs'_def by (rule remove_keys [OF inv res(1) pay _ _ k(1)]) (simp_all add: t'_def)
      show "lawful t'" by (rule lawful_cong [OF k(2)]) (simp_all add: t'_def)
    qed
    moreover from res(2) Some have "zc_hashtable_remove t ak = Some t'" by (simp add: t'_def)
    ultimately show ?thesis using res(3) [folded t'_def bs'_def]
      by (intro exI [of _ t'] exI [of _ bs']) simp
  qed
qed

lemma rehash_preserves:
  assumes inv: "table_inv t bs"
  shows "\<exists>rc t' bs'. zc_hashtable_rehash tc t = Some (rc, t') \<and> table_inv t' bs' \<and>
           (keys_inv t bs \<longrightarrow> lawful t \<longrightarrow> keys_inv t' bs' \<and> lawful t')"
proof (cases tc)
  case False
  then have "zc_hashtable_rehash tc t = Some (- 1, t)" by (simp add: zc_hashtable_rehash_def)
  with inv show ?thesis by blast
next
  case True
  from rehash_table [OF inv]
  obtain h' tb' where f: "zc_hashtable_rehash True t
       = Some (0, t\<lparr>ents := h', tab := tb', tab_size := 2 * tab_size t\<rparr>)"
    "table_inv (t\<lparr>ents := h', tab := tb', tab_size := 2 * tab_size t\<rparr>) (rehashed_chains t bs)"
    "\<forall>x. same_payload (ents t x) (h' x)" by blast
  from inv have n: "0 < tab_size t" by (simp add: table_inv_def bucket_chains_def)
  have "keys_inv (t\<lparr>ents := h', tab := tb', tab_size := 2 * tab_size t\<rparr>) (rehashed_chains t bs) \<and>
        lawful (t\<lparr>ents := h', tab := tb', tab_size := 2 * tab_size t\<rparr>)"
    if k: "keys_inv t bs" "lawful t"
  proof
    show "keys_inv (t\<lparr>ents := h', tab := tb', tab_size := 2 * tab_size t\<rparr>) (rehashed_chains t bs)"
      by (rule keys_inv_same_payload [OF k(1)])
        (use f(3) n in \<open>simp_all add: set_rehashed_chains\<close>)
    show "lawful (t\<lparr>ents := h', tab := tb', tab_size := 2 * tab_size t\<rparr>)"
      by (rule lawful_cong [OF k(2)]) simp_all
  qed
  moreover from f(1) True
  have "zc_hashtable_rehash tc t
      = Some (0, t\<lparr>ents := h', tab := tb', tab_size := 2 * tab_size t\<rparr>)" by simp
  ultimately show ?thesis using f(2)
    by (intro exI [of _ 0] exI [of _ "t\<lparr>ents := h', tab := tb', tab_size := 2 * tab_size t\<rparr>"]
        exI [of _ "rehashed_chains t bs"]) simp
qed

lemma clean_preserves:
  assumes inv: "table_inv t bs"
  shows "\<exists>t'. zc_hashtable_clean t = Some t' \<and> table_inv t' (replicate (tab_size t) []) \<and>
           nelem t' = 0 \<and> tab_size t' = tab_size t \<and>
           keys_inv t' (replicate (tab_size t) []) \<and> (lawful t \<longrightarrow> lawful t')"
proof -
  from clean_table [OF inv]
  obtain h' l' where c: "zc_hashtable_clean t
      = Some (t\<lparr>ents := h', del_log := l', tab := replicate (tab_size t) None, nelem := 0\<rparr>)"
    "table_inv (t\<lparr>ents := h', del_log := l', tab := replicate (tab_size t) None, nelem := 0\<rparr>)
       (replicate (tab_size t) [])" by blast
  have "lawful (t\<lparr>ents := h', del_log := l', tab := replicate (tab_size t) None, nelem := 0\<rparr>)"
    if "lawful t" by (rule lawful_cong [OF that]) simp_all
  with c show ?thesis by (auto simp: keys_inv_empty)
qed

lemma new_preserves:
  assumes "0 < n"
  shows "\<exists>t0. zc_hashtable_new True True n (Some hf) (Some eq) kd vd = Some t0 \<and>
           table_inv t0 (replicate n []) \<and> keys_inv t0 (replicate n []) \<and>
           nelem t0 = 0 \<and> tab_size t0 = n \<and> hash_fn t0 = hf \<and> equal_fn t0 = eq"
  using assms table_inv_empty [of "\<lparr>nelem = 0, tab = replicate n None, tab_size = n,
      hash_fn = hf, equal_fn = eq, key_del_fn = kd, value_del_fn = vd,
      ents = Map.empty, del_log = []\<rparr>"]
  by (simp add: new_table keys_inv_empty)

section \<open>Put of a key that an entry holds\<close>

text \<open>
  C5, as amended. The table is well formed, its strategy functions keep their
  contract (\<open>lawful\<close>: \<open>equal_fn\<close> is symmetric and transitive, and keys it judges
  equal have equal hashes), every entry caches the hash of its key and no two
  entries hold keys judged equal (\<open>keys_inv\<close>). Then a Put of a key \<open>k\<close> that
  \<open>equal_fn\<close> judges equal to the key of an entry \<open>a\<close> of the table succeeds with
  return code 0, calls the configured destructors exactly once each, first the key
  destructor on the stored key and then the value destructor on the stored value,
  overwrites the key and the value of this entry with the new ones, and leaves the
  count unchanged. The table stays well formed on the same chains, and the contract
  and \<open>keys_inv\<close> hold of it again. \<open>keys_inv\<close> holds of the table New returns,
  and under the contract of every table that Put, Remove, Clean and the rehash return
  (\<open>new_preserves\<close>, \<open>put_preserves\<close>, \<open>remove_preserves\<close>, \<open>clean_preserves\<close>,
  \<open>rehash_preserves\<close>).
\<close>

theorem put_equal_key_updates:
  assumes "table_inv t bs" "keys_inv t bs" "lawful t"
    and "a \<in> set (concat bs)" "key_matches t k a"
  shows "\<exists>e t'. ents t a = Some e \<and> equal_fn t k (key e) \<and>
           zc_hashtable_put tab_calloc p_calloc t (Some k) v = Some (0, t') \<and>
           del_log t' = del_log t @ (if key_del_fn t then [Key_del (key e)] else [])
                                  @ (if value_del_fn t then [Value_del (value_e e)] else []) \<and>
           ents t' a = Some (e\<lparr>key := k, value_e := v\<rparr>) \<and>
           nelem t' = nelem t \<and>
           table_inv t' bs \<and> keys_inv t' bs \<and> lawful t'"
proof -
  from assms(5) obtain e where e: "ents t a = Some e" "equal_fn t k (key e)"
    by (auto simp: key_matches_def split: option.splits)
  have found: "zc_hashtable_get_entry t (Some k) = Some (Some a)"
    by (rule lawful_get_entry [OF assms(1,2,3,4) e])
  define t' where "t' = (call_del_fns t (key e) (value_e e))
                          \<lparr>ents := (ents t)(a \<mapsto> e\<lparr>key := k, value_e := v\<rparr>)\<rparr>"
  have run: "zc_hashtable_put tab_calloc p_calloc t (Some k) v = Some (0, t')"
    unfolding t'_def by (rule put_update [OF found e(1)])
  from put_update_table [OF assms(1) found, of tab_calloc p_calloc v] assms(2,3)
  obtain t2 where t2: "zc_hashtable_put tab_calloc p_calloc t (Some k) v = Some (0, t2)"
    "table_inv t2 bs" "keys_inv t2 bs" "lawful t2" by blast
  from t2(1) run have "t2 = t'" by simp
  with t2 have inv': "table_inv t' bs" "keys_inv t' bs" "lawful t'" by simp_all
  have "del_log t' = del_log t @ (if key_del_fn t then [Key_del (key e)] else [])
                               @ (if value_del_fn t then [Value_del (value_e e)] else [])"
    "ents t' a = Some (e\<lparr>key := k, value_e := v\<rparr>)" "nelem t' = nelem t"
    by (simp_all add: t'_def call_del_fns_def)
  with e run inv' show ?thesis
    by (intro exI [of _ e] exI [of _ t']) simp
qed

theorem put_equal_key_updates_witness:
  "\<exists>e t'. ents (nat_table 2 [(0, 10), (2, 12), (4, 14)]) 2 = Some e \<and>
     equal_fn (nat_table 2 [(0, 10), (2, 12), (4, 14)]) 2 (key e) \<and>
     zc_hashtable_put False None (nat_table 2 [(0, 10), (2, 12), (4, 14)]) (Some 2) (Some 7)
       = Some (0, t') \<and>
     del_log t' = del_log (nat_table 2 [(0, 10), (2, 12), (4, 14)])
                    @ [Key_del (key e)] @ [Value_del (value_e e)] \<and>
     ents t' 2 = Some (e\<lparr>key := 2, value_e := Some 7\<rparr>) \<and>
     nelem t' = 3 \<and>
     table_inv t' [[3, 2, 1], []] \<and> keys_inv t' [[3, 2, 1], []] \<and> lawful t'"
proof -
  let ?t = "nat_table 2 [(0, 10), (2, 12), (4, 14)]"
  have 1: "table_inv ?t [[3, 2, 1], []]" by code_simp
  have 2: "keys_inv ?t [[3, 2, 1], []]" by code_simp
  have 3: "lawful ?t" by (rule nat_table_lawful) code_simp+
  have 4: "2 \<in> set (concat [[3, 2, 1], [] :: nat list])" by simp
  have 5: "key_matches ?t 2 2" by code_simp
  have 6: "key_del_fn ?t" "value_del_fn ?t" "nelem ?t = 3"
    by code_simp+
  from put_equal_key_updates [OF 1 2 3 4 5, of False None "Some 7"] show ?thesis
    by (simp add: 6)
qed

text \<open>
  C5 as stated, for every table and every key judged equal, fails when \<open>hash_fn\<close>
  does not respect \<open>equal_fn\<close>. The table has two buckets, \<open>equal_fn\<close> judges all
  keys equal and \<open>hash_fn\<close> is the identity; key 0 is stored with value 10, in the
  only entry, at address 1 in bucket 0. \<open>equal_fn\<close> judges key 1 equal to the stored
  key, but Put of key 1 scans bucket 1, finds no entry and inserts: it returns 0
  with a count of 2, no destructor has been called, and the entry at address 1
  holds key 0 and value 10 as before.
\<close>

theorem put_equal_key_counterexample:
  "table_inv (client_table of_nat (\<lambda>x y. True) 2 [(0 :: nat, 10 :: nat)]) [[1], []] \<and>
   nelem (client_table of_nat (\<lambda>x y. True) 2 [(0 :: nat, 10 :: nat)]) = 1 \<and>
   key_del_fn (client_table of_nat (\<lambda>x y. True) 2 [(0 :: nat, 10 :: nat)]) \<and>
   value_del_fn (client_table of_nat (\<lambda>x y. True) 2 [(0 :: nat, 10 :: nat)]) \<and>
   map_option key (ents (client_table of_nat (\<lambda>x y. True) 2 [(0 :: nat, 10 :: nat)]) 1)
     = Some 0 \<and>
   key_matches (client_table of_nat (\<lambda>x y. True) 2 [(0 :: nat, 10 :: nat)]) 1 1 \<and>
   map_option
     (\<lambda>(rc, t'). (rc, nelem t', del_log t', map_option key (ents t' 1),
                  map_option value_e (ents t' 1)))
     (zc_hashtable_put True (Some 2)
        (client_table of_nat (\<lambda>x y. True) 2 [(0 :: nat, 10 :: nat)]) (Some 1) (Some 11))
     = Some (0, 2, [], Some 0, Some (Some 10))"
  by code_simp

section \<open>Removal of a key\<close>

lemma absent_not_found:
  assumes "table_inv t bs" "\<forall>b\<in>set (concat bs). \<not> key_matches t k b"
  shows "zc_hashtable_get_entry t (Some k) = Some None"
proof -
  from assms(1) have ch: "bucket_chains t bs" and n: "0 < tab_size t"
    and len: "length bs = tab_size t"
    by (simp_all add: table_inv_def bucket_chains_def)
  have "\<not> key_matches t k b" if "b \<in> set (bs ! home t k)" for b
  proof -
    from that n len have "b \<in> set (concat bs)"
      unfolding in_concat_nth using home_less [of t k] by auto
    with assms(2) show ?thesis by simp
  qed
  then have "find (key_matches t k) (bs ! home t k) = None" by (simp add: find_None_iff)
  with get_entry_find [OF ch, of k] show ?thesis by simp
qed

text \<open>
  C6, as amended. The table is well formed. If its strategy functions keep their
  contract (\<open>lawful\<close>), every entry caches the hash of its key and no two entries
  hold keys judged equal (\<open>keys_inv\<close>), and the entry \<open>a\<close> of the table holds a
  key that \<open>equal_fn\<close> judges equal to \<open>k\<close>, then Remove of \<open>k\<close> calls the
  configured destructors on the key and the value of \<open>a\<close>, takes exactly this entry
  out of its chain and frees it (every other entry keeps its hash, key and value
  and its place), and the count decreases by exactly one; afterwards no entry of the
  table holds a key judged equal to \<open>k\<close>, GetEntry and Get of \<open>k\<close> find nothing,
  and the contract and \<open>keys_inv\<close> hold again. If no entry of the table holds a key
  judged equal to \<open>k\<close>, Remove returns normally and the table is as it was; for
  this case the contract is not needed.
\<close>

theorem remove_entry_of_key:
  assumes "table_inv t bs"
  shows "(keys_inv t bs \<and> lawful t \<and> a \<in> set (concat bs) \<and> key_matches t k a \<longrightarrow>
            (\<exists>e t'. ents t a = Some e \<and> zc_hashtable_remove t (Some k) = Some t' \<and>
               ents t' a = None \<and> a \<in> set (bs ! home t k) \<and>
               table_inv t' (bs[home t k := remove1 a (bs ! home t k)]) \<and>
               (\<forall>x. x \<noteq> a \<longrightarrow> same_payload (ents t x) (ents t' x)) \<and>
               nelem t' + 1 = nelem t \<and>
               del_log t' = del_log t @ (if key_del_fn t then [Key_del (key e)] else [])
                                      @ (if value_del_fn t then [Value_del (value_e e)] else []) \<and>
               (\<forall>b\<in>set (concat (bs[home t k := remove1 a (bs ! home t k)])).
                  \<not> key_matches t' k b) \<and>
               zc_hashtable_get_entry t' (Some k) = Some None \<and>
               zc_hashtable_get t' (Some k) = Some None \<and>
               keys_inv t' (bs[home t k := remove1 a (bs ! home t k)]) \<and> lawful t')) \<and>
         ((\<forall>b\<in>set (concat bs). \<not> key_matches t k b) \<longrightarrow>
            zc_hashtable_remove t (Some k) = Some t)"
proof (intro conjI impI)
  assume hyp: "keys_inv t bs \<and> lawful t \<and> a \<in> set (concat bs) \<and> key_matches t k a"
  then have keys: "keys_inv t bs" and law: "lawful t" and ac: "a \<in> set (concat bs)"
    and km: "key_matches t k a" by simp_all
  from km obtain e0 where e0: "ents t a = Some e0" "equal_fn t k (key e0)"
    by (auto simp: key_matches_def split: option.splits)
  have found: "zc_hashtable_get_entry t (Some k) = Some (Some a)"
    by (rule lawful_get_entry [OF assms keys law ac e0])
  from remove_found [OF assms found]
  obtain e h' tb' where r: "ents t a = Some e" "a \<in> set (bs ! home t k)" "key_matches t k a"
    "zc_hashtable_remove t (Some k)
       = Some ((call_del_fns t (key e) (value_e e))\<lparr>ents := h', tab := tb', nelem := nelem t - 1\<rparr>)"
    "table_inv ((call_del_fns t (key e) (value_e e))\<lparr>ents := h', tab := tb', nelem := nelem t - 1\<rparr>)
       (bs[home t k := remove1 a (bs ! home t k)])"
    "0 < nelem t" "h' a = None" "\<forall>x. x \<noteq> a \<longrightarrow> same_payload (ents t x) (h' x)"
    by blast
  define t' where "t' = (call_del_fns t (key e) (value_e e))
                          \<lparr>ents := h', tab := tb', nelem := nelem t - 1\<rparr>"
  define bs' where "bs' = bs[home t k := remove1 a (bs ! home t k)]"
  have cfg: "hash_fn t' = hash_fn t" "equal_fn t' = equal_fn t" "tab_size t' = tab_size t"
    by (simp_all add: t'_def call_del_fns_def)
  have inv': "table_inv t' bs'" using r(5) by (simp add: t'_def bs'_def)
  have pay: "\<forall>x. x \<noteq> a \<longrightarrow> same_payload (ents t x) (ents t' x)"
    using r(8) by (simp add: t'_def)
  have keys': "keys_inv t' bs'"
    unfolding bs'_def by (rule remove_keys [OF assms r(2) pay cfg(1,2) keys])
  have law': "lawful t'" by (rule lawful_cong [OF law cfg(1,2)])
  have gone: "zc_hashtable_get_entry t' (Some k) = Some None"
    by (rule remove_then_absent [OF assms keys law r(2,3) inv' [unfolded bs'_def] pay cfg])
  then have get: "zc_hashtable_get t' (Some k) = Some None"
    by (simp add: zc_hashtable_get_def)
  have none: "\<forall>b\<in>set (concat bs'). \<not> key_matches t' k b"
  proof
    fix b assume b: "b \<in> set (concat bs')"
    show "\<not> key_matches t' k b"
    proof
      assume "key_matches t' k b"
      then obtain f where f: "ents t' b = Some f" "equal_fn t' k (key f)"
        by (auto simp: key_matches_def split: option.splits)
      from absent_everywhere [OF inv' keys' law' gone b f(1)] f(2) show False by simp
    qed
  qed
  have run: "zc_hashtable_remove t (Some k) = Some t'" using r(4) by (simp add: t'_def)
  have rest: "ents t' a = None" "nelem t' + 1 = nelem t"
    "del_log t' = del_log t @ (if key_del_fn t then [Key_del (key e)] else [])
                            @ (if value_del_fn t then [Value_del (value_e e)] else [])"
    using r(6,7) by (simp_all add: t'_def call_del_fns_def)
  from r(1,2) run rest inv' pay none gone get keys' law'
  show "\<exists>e t'. ents t a = Some e \<and> zc_hashtable_remove t (Some k) = Some t' \<and>
      ents t' a = None \<and> a \<in> set (bs ! home t k) \<and>
      table_inv t' (bs[home t k := remove1 a (bs ! home t k)]) \<and>
      (\<forall>x. x \<noteq> a \<longrightarrow> same_payload (ents t x) (ents t' x)) \<and>
      nelem t' + 1 = nelem t \<and>
      del_log t' = del_log t @ (if key_del_fn t then [Key_del (key e)] else [])
                             @ (if value_del_fn t then [Value_del (value_e e)] else []) \<and>
      (\<forall>b\<in>set (concat (bs[home t k := remove1 a (bs ! home t k)])).
         \<not> key_matches t' k b) \<and>
      zc_hashtable_get_entry t' (Some k) = Some None \<and>
      zc_hashtable_get t' (Some k) = Some None \<and>
      keys_inv t' (bs[home t k := remove1 a (bs ! home t k)]) \<and> lawful t'"
    unfolding bs'_def by (intro exI [of _ e] exI [of _ t']) simp
next
  assume "\<forall>b\<in>set (concat bs). \<not> key_matches t k b"
  from absent_not_found [OF assms this]
  show "zc_hashtable_remove t (Some k) = Some t" by (rule remove_absent)
qed

theorem remove_entry_of_key_witness:
  "(\<exists>e t'. ents (nat_table 2 [(0, 10), (2, 12), (4, 14)]) 2 = Some e \<and>
      zc_hashtable_remove (nat_table 2 [(0, 10), (2, 12), (4, 14)]) (Some 2) = Some t' \<and>
      ents t' 2 = None \<and> table_inv t' [[3, 1], []] \<and>
      nelem t' + 1 = 3 \<and>
      (\<forall>b\<in>set (concat [[3, 1], [] :: nat list]). \<not> key_matches t' 2 b) \<and>
      zc_hashtable_get t' (Some 2) = Some None) \<and>
   zc_hashtable_remove (nat_table 2 [(0, 10), (2, 12), (4, 14)]) (Some 1)
     = Some (nat_table 2 [(0, 10), (2, 12), (4, 14)])"
proof -
  let ?t = "nat_table 2 [(0, 10), (2, 12), (4, 14)]"
  have 1: "table_inv ?t [[3, 2, 1], []]" by code_simp
  have 2: "keys_inv ?t [[3, 2, 1], []]" by code_simp
  have 3: "lawful ?t" by (rule nat_table_lawful) code_simp+
  have 4: "2 \<in> set (concat [[3, 2, 1], [] :: nat list])" by simp
  have 5: "key_matches ?t 2 2" by code_simp
  have 6: "[[3, 2, 1], []][home ?t 2 := remove1 2 ([[3, 2, 1], []] ! home ?t 2)]
      = [[3, 1], [] :: nat list]"
    by code_simp
  have 7: "nelem ?t = 3" by code_simp
  have 8: "\<forall>b\<in>set (concat [[3, 2, 1], [] :: nat list]). \<not> key_matches ?t 1 b"
    by code_simp
  note P = mp [OF conjunct1 [OF remove_entry_of_key [OF 1, of 2 2, unfolded 6]],
      OF conjI [OF 2 conjI [OF 3 conjI [OF 4 5]]]]
  note Q = mp [OF conjunct2 [OF remove_entry_of_key [OF 1, of 2 1]], OF 8]
  from P Q show ?thesis unfolding 7 by blast
qed

text \<open>
  C6 as stated, for every table and key, fails when \<open>equal_fn\<close> is not an
  equivalence. The table has two buckets, \<open>hash_fn\<close> is constant and \<open>equal_fn\<close>
  is the order \<open>\<le>\<close> of the numbers; keys 3 and 5 are stored with values 13 and
  15, at the addresses 1 and 2, both in bucket 0. \<open>equal_fn\<close> judges key 2 equal to
  both stored keys. Remove of key 2 takes out the entry of key 5, and the count goes
  from 2 to 1, but Get of key 2 afterwards still finds the entry of key 3 and
  returns 13.
\<close>

theorem remove_then_get_counterexample:
  "table_inv (client_table (\<lambda>k. 0) (\<le>) 2 [(3 :: nat, 13 :: nat), (5, 15)]) [[2, 1], []] \<and>
   nelem (client_table (\<lambda>k. 0) (\<le>) 2 [(3 :: nat, 13 :: nat), (5, 15)]) = 2 \<and>
   key_matches (client_table (\<lambda>k. 0) (\<le>) 2 [(3 :: nat, 13 :: nat), (5, 15)]) 2 1 \<and>
   key_matches (client_table (\<lambda>k. 0) (\<le>) 2 [(3 :: nat, 13 :: nat), (5, 15)]) 2 2 \<and>
   map_option
     (\<lambda>t'. (nelem t', map_option key (ents t' 1), ents t' 2 = None,
            zc_hashtable_get t' (Some 2)))
     (zc_hashtable_remove (client_table (\<lambda>k. 0) (\<le>) 2 [(3 :: nat, 13 :: nat), (5, 15)])
        (Some 2))
     = Some (1, Some 3, True, Some (Some 13))"
  by code_simp

section \<open>The invariants of the data model\<close>

lemma table_inv_unique:
  assumes "table_inv t bs" "table_inv t bs'"
  shows "bs = bs'"
proof (rule nth_equalityI)
  from assms show "length bs = length bs'"
    by (simp add: table_inv_def bucket_chains_def)
next
  fix i assume "i < length bs"
  with assms have "dll (ents t) None (tab t ! i) (bs ! i)" "dll (ents t) None (tab t ! i) (bs' ! i)"
    by (simp_all add: table_inv_def bucket_chains_def)
  then show "bs ! i = bs' ! i" by (rule dll_unique)
qed

lemma new_result:
  assumes "zc_hashtable_new c1 c2 n hfo eqo kd vd = Some t0"
  shows "table_inv t0 (replicate n []) \<and> nelem t0 = 0 \<and> tab_size t0 = n"
proof -
  from assms have "0 < n" "tab_size t0 = n" "tab t0 = replicate n None" "nelem t0 = 0"
    by (auto simp: zc_hashtable_new_def zc_assert_def split: if_splits)
  with table_inv_empty [of t0] show ?thesis by simp
qed

text \<open>
  C4. \<open>table_inv t bs\<close> says that \<open>bs\<close> are the chains of the table \<open>t\<close>, each a
  doubly linked list from the head in the bucket array (\<open>bucket_chains\<close>), that the
  count is the number of entries in the chains (\<open>count_inv\<close>), and that the cached
  hash of every entry, modulo the capacity, is the index of the chain the entry is
  in (\<open>bucket_inv\<close>); a table has at most one list of chains. Every table that New
  returns is well formed in this sense, with empty chains, and New returns a table
  when the capacity is positive, both functions are given and the allocations
  succeed. On a well-formed table each of Put, Remove, Clean and the rehash returns,
  whatever the key, the value and the outcomes of the allocations are, and the table it
  returns is well formed. For Put the record a successful allocation returns is at an
  address that holds no entry of the table. The statement holds for all strategy
  functions; that equal keys have equal hashes is not needed for it.
\<close>

theorem operations_preserve_invariants:
  assumes "table_inv t bs"
  shows "(\<forall>t0. zc_hashtable_new c1 c2 n hfo eqo kd vd = Some t0 \<longrightarrow>
            table_inv t0 (replicate n []) \<and> nelem t0 = 0) \<and>
         (0 < n \<longrightarrow> (\<exists>t1. zc_hashtable_new True True n (Some hf) (Some eq) kd vd = Some t1)) \<and>
         ((\<forall>a. p_calloc = Some a \<longrightarrow> ents t a = None) \<longrightarrow>
            (\<exists>rc t' bs'. zc_hashtable_put tab_calloc p_calloc t a_key a_value = Some (rc, t') \<and>
               table_inv t' bs')) \<and>
         (\<exists>t' bs'. zc_hashtable_remove t a_key = Some t' \<and> table_inv t' bs') \<and>
         (\<exists>t'. zc_hashtable_clean t = Some t' \<and> table_inv t' (replicate (tab_size t) []) \<and>
            nelem t' = 0) \<and>
         (\<exists>rc t' bs'. zc_hashtable_rehash tab_calloc t = Some (rc, t') \<and> table_inv t' bs')"
proof (intro conjI)
  show "\<forall>t0. zc_hashtable_new c1 c2 n hfo eqo kd vd = Some t0 \<longrightarrow>
      table_inv t0 (replicate n []) \<and> nelem t0 = 0"
    using new_result [of c1 c2 n hfo eqo kd vd] by blast
  show "0 < n \<longrightarrow> (\<exists>t1. zc_hashtable_new True True n (Some hf) (Some eq) kd vd = Some t1)"
    by (simp add: new_table)
  show "(\<forall>a. p_calloc = Some a \<longrightarrow> ents t a = None) \<longrightarrow>
      (\<exists>rc t' bs'. zc_hashtable_put tab_calloc p_calloc t a_key a_value = Some (rc, t') \<and>
         table_inv t' bs')"
  proof
    assume "\<forall>a. p_calloc = Some a \<longrightarrow> ents t a = None"
    from put_preserves [OF assms this, of tab_calloc a_key a_value]
    show "\<exists>rc t' bs'. zc_hashtable_put tab_calloc p_calloc t a_key a_value = Some (rc, t') \<and>
        table_inv t' bs'" by blast
  qed
  from remove_preserves [OF assms, of a_key]
  show "\<exists>t' bs'. zc_hashtable_remove t a_key = Some t' \<and> table_inv t' bs'" by blast
  from clean_preserves [OF assms]
  show "\<exists>t'. zc_hashtable_clean t = Some t' \<and> table_inv t' (replicate (tab_size t) []) \<and>
      nelem t' = 0" by blast
  from rehash_preserves [OF assms, of tab_calloc]
  show "\<exists>rc t' bs'. zc_hashtable_rehash tab_calloc t = Some (rc, t') \<and> table_inv t' bs'"
    by blast
qed

theorem operations_preserve_invariants_witness:
  "(\<exists>t1 :: (nat, nat) zc_hashtable.
      zc_hashtable_new True True 3 (Some of_nat) (Some (=)) True True = Some t1 \<and>
      table_inv t1 (replicate 3 []) \<and> nelem t1 = 0) \<and>
   (\<exists>rc t' bs'. zc_hashtable_put True (Some 9) (nat_table 3 [(0, 10), (3, 13), (1, 11), (4, 14)])
        (Some 7) (Some 17) = Some (rc, t') \<and> table_inv t' bs') \<and>
   (\<exists>t' bs'. zc_hashtable_remove (nat_table 3 [(0, 10), (3, 13), (1, 11), (4, 14)]) (Some 3)
        = Some t' \<and> table_inv t' bs') \<and>
   (\<exists>t'. zc_hashtable_clean (nat_table 3 [(0, 10), (3, 13), (1, 11), (4, 14)]) = Some t' \<and>
        table_inv t' (replicate 3 []) \<and> nelem t' = 0) \<and>
   (\<exists>rc t' bs'. zc_hashtable_rehash True (nat_table 3 [(0, 10), (3, 13), (1, 11), (4, 14)])
        = Some (rc, t') \<and> table_inv t' bs')"
proof -
  let ?t = "nat_table 3 [(0, 10), (3, 13), (1, 11), (4, 14)]"
  have 1: "table_inv ?t [[2, 1], [4, 3], []]" by code_simp
  have "ents ?t 9 = None" by code_simp
  then have 2: "\<forall>a. Some (9 :: nat) = Some a \<longrightarrow> ents ?t a = None" by simp
  have 3: "tab_size ?t = 3" by code_simp
  have 4: "0 < (3 :: nat)" by simp
  note th1 = operations_preserve_invariants [OF 1, of True True 3 "Some of_nat" "Some (=)" True True
      of_nat "(=)" "Some 9" True "Some 7" "Some 17", unfolded 3]
  note th2 = operations_preserve_invariants [OF 1, of True True 3 "Some of_nat" "Some (=)" True True
      of_nat "(=)" "Some 9" True "Some 3" "Some 17", unfolded 3]
  from th1 th2 2 4 show ?thesis by blast
qed

section \<open>The load test of Put\<close>

text \<open>
  C1, as amended. The load test is made before the insertion, on the count and the
  capacity the table has when Put is called. On a well-formed table whose strategy
  functions keep their contract and whose entries hold pairwise unequal keys with
  their hashes cached, a Put of a key \<open>k\<close> that no entry of the table holds a match
  for, with successful allocations, returns 0 and adds one to the count. The capacity
  afterwards is exactly twice the capacity before if the count before the Put was
  above 1.3 times the capacity, and is the capacity before otherwise. In both cases a
  lookup of a key \<open>k'\<close> that \<open>equal_fn\<close> judges equal to the key of an entry of
  the old table finds this entry, with the value it had, and a lookup of \<open>k\<close> finds
  the new entry if \<open>equal_fn\<close> judges \<open>k\<close> equal to itself.
\<close>

theorem put_rehashes_above_load:
  assumes "table_inv t bs" "keys_inv t bs" "lawful t"
    and "\<forall>b\<in>set (concat bs). \<not> key_matches t k b"
    and "ents t a = None"
  shows "\<exists>t'. zc_hashtable_put True (Some a) t (Some k) v = Some (0, t') \<and>
           tab_size t' = (if real (nelem t) > real (tab_size t) * 1.3
                          then 2 * tab_size t else tab_size t) \<and>
           nelem t' = nelem t + 1 \<and>
           table_inv t' (put_chains t bs a k) \<and>
           (\<forall>b\<in>set (concat bs). \<forall>e k'. ents t b = Some e \<longrightarrow> equal_fn t k' (key e) \<longrightarrow>
              zc_hashtable_get_entry t' (Some k') = Some (Some b) \<and>
              zc_hashtable_get t' (Some k') = Some (value_e e)) \<and>
           (equal_fn t k k \<longrightarrow> zc_hashtable_get t' (Some k) = Some v)"
proof -
  have ab: "zc_hashtable_get_entry t (Some k) = Some None"
    by (rule absent_not_found [OF assms(1,4)])
  from put_insert [OF assms(1) ab assms(5), of v]
  obtain t' where run: "zc_hashtable_put True (Some a) t (Some k) v = Some (0, t')"
    and ins: "put_inserted t bs a k v t'" by blast
  note d = put_insertedD [OF ins]
  note keys' = put_insert_keys [OF assms(1,2,3) ab ins]
  have old: "zc_hashtable_get_entry t' (Some k') = Some (Some b) \<and>
      zc_hashtable_get t' (Some k') = Some (value_e e)"
    if b: "b \<in> set (concat bs)" "ents t b = Some e" "equal_fn t k' (key e)" for b e k'
  proof -
    from b(2) assms(5) have "b \<noteq> a" by auto
    with d(7) have "same_payload (ents t b) (ents t' b)" by simp
    with b(2) obtain e' where e': "ents t' b = Some e'" "key e' = key e" "value_e e' = value_e e"
      by (auto dest: same_payload_SomeD)
    from b(1) d(4) have mem: "b \<in> set (concat (put_chains t bs a k))" by simp
    from b(3) e'(2) d(9) have "equal_fn t' k' (key e')" by simp
    from lawful_get_entry [OF d(1) keys' mem e'(1) this]
    have g: "zc_hashtable_get_entry t' (Some k') = Some (Some b)" .
    with e'(1,3) show ?thesis by (simp add: zc_hashtable_get_def)
  qed
  have new: "zc_hashtable_get t' (Some k) = Some v" if r: "equal_fn t k k"
  proof -
    from d(6) obtain e' where e': "ents t' a = Some e'" "key e' = k" "value_e e' = v"
      by (elim exE conjE)
    from d(4) have mem: "a \<in> set (concat (put_chains t bs a k))" by simp
    from r e'(2) d(9) have "equal_fn t' k (key e')" by simp
    from lawful_get_entry [OF d(1) keys' mem e'(1) this] e'(1,3)
    show ?thesis by (simp add: zc_hashtable_get_def)
  qed
  from run d(1,2,3) old new show ?thesis
    by (intro exI [of _ t']) simp
qed

theorem put_rehashes_above_load_witness:
  "(\<exists>t'. zc_hashtable_put True (Some 3) (nat_table 1 [(0, 10), (2, 12)]) (Some 4) (Some 14)
          = Some (0, t') \<and>
      tab_size t' = 2 \<and> nelem t' = 3 \<and>
      zc_hashtable_get t' (Some 0) = Some (Some 10) \<and>
      zc_hashtable_get t' (Some 2) = Some (Some 12) \<and>
      zc_hashtable_get t' (Some 4) = Some (Some 14)) \<and>
   (\<exists>t'. zc_hashtable_put True (Some 6)
            (nat_table 4 [(0, 10), (1, 11), (2, 12), (3, 13), (4, 14)]) (Some 5) (Some 15)
          = Some (0, t') \<and>
      tab_size t' = 4 \<and> nelem t' = 6 \<and>
      zc_hashtable_get t' (Some 3) = Some (Some 13))"
proof -
  let ?t = "nat_table 1 [(0, 10), (2, 12)]"
  let ?u = "nat_table 4 [(0, 10), (1, 11), (2, 12), (3, 13), (4, 14)]"
  have 1: "table_inv ?t [[2, 1]]" by code_simp
  have 2: "keys_inv ?t [[2, 1]]" by code_simp
  have 3: "lawful ?t" by (rule nat_table_lawful) code_simp+
  have 4: "\<forall>b\<in>set (concat [[2, 1 :: nat]]). \<not> key_matches ?t 4 b" by code_simp
  have 5: "ents ?t 3 = None" by code_simp
  have 6: "nelem ?t = 2" "tab_size ?t = 1" "equal_fn ?t 4 4"
    "ents ?t 1 = Some \<lparr>hash_key = 0, key = 0, value_e = Some 10, next_e = None, prev = Some 2\<rparr>"
    "ents ?t 2 = Some \<lparr>hash_key = 2, key = 2, value_e = Some 12, next_e = Some 1, prev = None\<rparr>"
    "equal_fn ?t 0 0" "equal_fn ?t 2 2"
    by code_simp+
  have u1: "table_inv ?u [[5, 1], [2], [3], [4]]" by code_simp
  have u2: "keys_inv ?u [[5, 1], [2], [3], [4]]" by code_simp
  have u3: "lawful ?u" by (rule nat_table_lawful) code_simp+
  have u4: "\<forall>b\<in>set (concat [[5, 1], [2], [3], [4 :: nat]]). \<not> key_matches ?u 5 b" by code_simp
  have u5: "ents ?u 6 = None" by code_simp
  have u6: "nelem ?u = 5" "tab_size ?u = 4"
    "ents ?u 4 = Some \<lparr>hash_key = 3, key = 3, value_e = Some 13, next_e = None, prev = None\<rparr>"
    "equal_fn ?u 3 3"
    by code_simp+
  from put_rehashes_above_load [OF 1 2 3 4 5, of "Some 14"]
  obtain t' where a: "zc_hashtable_put True (Some 3) ?t (Some 4) (Some 14) = Some (0, t')"
    "tab_size t' = (if real (nelem ?t) > real (tab_size ?t) * 1.3
                    then 2 * tab_size ?t else tab_size ?t)"
    "nelem t' = nelem ?t + 1"
    "\<forall>b\<in>set (concat [[2, 1 :: nat]]). \<forall>e k'. ents ?t b = Some e \<longrightarrow> equal_fn ?t k' (key e) \<longrightarrow>
       zc_hashtable_get_entry t' (Some k') = Some (Some b) \<and>
       zc_hashtable_get t' (Some k') = Some (value_e e)"
    "equal_fn ?t 4 4 \<longrightarrow> zc_hashtable_get t' (Some 4) = Some (Some 14)"
    by blast
  from a(4) 6(4,6) have a0: "zc_hashtable_get t' (Some 0) = Some (Some 10)" by fastforce
  from a(4) 6(5,7) have a2: "zc_hashtable_get t' (Some 2) = Some (Some 12)" by fastforce
  have A: "\<exists>t'. zc_hashtable_put True (Some 3) ?t (Some 4) (Some 14) = Some (0, t') \<and>
      tab_size t' = 2 \<and> nelem t' = 3 \<and>
      zc_hashtable_get t' (Some 0) = Some (Some 10) \<and>
      zc_hashtable_get t' (Some 2) = Some (Some 12) \<and>
      zc_hashtable_get t' (Some 4) = Some (Some 14)"
    using a(1,2,3,5) a0 a2 6(1,2,3) by (intro exI [of _ t']) simp
  from put_rehashes_above_load [OF u1 u2 u3 u4 u5, of "Some 15"]
  obtain u' where b: "zc_hashtable_put True (Some 6) ?u (Some 5) (Some 15) = Some (0, u')"
    "tab_size u' = (if real (nelem ?u) > real (tab_size ?u) * 1.3
                    then 2 * tab_size ?u else tab_size ?u)"
    "nelem u' = nelem ?u + 1"
    "\<forall>b\<in>set (concat [[5, 1], [2], [3], [4 :: nat]]). \<forall>e k'. ents ?u b = Some e \<longrightarrow>
       equal_fn ?u k' (key e) \<longrightarrow>
       zc_hashtable_get_entry u' (Some k') = Some (Some b) \<and>
       zc_hashtable_get u' (Some k') = Some (value_e e)"
    by blast
  from b(4) u6(3,4) have b3: "zc_hashtable_get u' (Some 3) = Some (Some 13)" by fastforce
  have B: "\<exists>t'. zc_hashtable_put True (Some 6) ?u (Some 5) (Some 15) = Some (0, t') \<and>
      tab_size t' = 4 \<and> nelem t' = 6 \<and>
      zc_hashtable_get t' (Some 3) = Some (Some 13)"
    using b(1,2,3) b3 u6(1,2) by (intro exI [of _ u']) simp
  from A B show ?thesis by (rule conjI)
qed

text \<open>
  C1 as stated fails, and so does its example. A table is made with capacity 4 and
  the five keys 0 to 4 are put into it: its capacity is still 4, because each of
  these Puts found a count of at most 4, which is not above 5.2. The Put of a sixth
  key pushes the count to 6, above 5.2, and makes no rehash: the capacity is 4 after
  it. The capacity becomes 8 with the seventh Put, which finds the count 6. The five
  keys are retrievable from the table of capacity 4.
\<close>

theorem put_load_test_counterexample:
  "tab_size (nat_table 4 [(0, 10), (1, 11), (2, 12), (3, 13), (4, 14)]) = 4 \<and>
   nelem (nat_table 4 [(0, 10), (1, 11), (2, 12), (3, 13), (4, 14)]) = 5 \<and>
   map_option (\<lambda>(rc, t'). (rc, tab_size t', nelem t'))
     (zc_hashtable_put True (Some 6) (nat_table 4 [(0, 10), (1, 11), (2, 12), (3, 13), (4, 14)])
        (Some 5) (Some 15))
     = Some (0, 4, 6) \<and>
   real 6 > real 4 * 1.3 \<and>
   tab_size (nat_table 4 [(0, 10), (1, 11), (2, 12), (3, 13), (4, 14), (5, 15), (6, 16)]) = 8 \<and>
   map (\<lambda>k. zc_hashtable_get (nat_table 4 [(0, 10), (1, 11), (2, 12), (3, 13), (4, 14)]) (Some k))
     [0, 1, 2, 3, 4]
     = [Some (Some 10), Some (Some 11), Some (Some 12), Some (Some 13), Some (Some 14)]"
proof -
  have "tab_size (nat_table 4 [(0, 10), (1, 11), (2, 12), (3, 13), (4, 14)]) = 4"
    "nelem (nat_table 4 [(0, 10), (1, 11), (2, 12), (3, 13), (4, 14)]) = 5"
    "map_option (\<lambda>(rc, t'). (rc, tab_size t', nelem t'))
       (zc_hashtable_put True (Some 6) (nat_table 4 [(0, 10), (1, 11), (2, 12), (3, 13), (4, 14)])
          (Some 5) (Some 15))
     = Some (0, 4, 6)"
    "tab_size (nat_table 4 [(0, 10), (1, 11), (2, 12), (3, 13), (4, 14), (5, 15), (6, 16)]) = 8"
    "map (\<lambda>k. zc_hashtable_get (nat_table 4 [(0, 10), (1, 11), (2, 12), (3, 13), (4, 14)]) (Some k))
       [0, 1, 2, 3, 4]
     = [Some (Some 10), Some (Some 11), Some (Some 12), Some (Some 13), Some (Some 14)]"
    by code_simp+
  then show ?thesis by simp
qed

section \<open>Put when an allocation fails\<close>

lemma put_link_rc:
  "put_link a k v t = Some (rc, t') \<Longrightarrow> rc = 0"
  by (auto simp: put_link_def Let_def split: Option.bind_splits)

lemma put_fails_only_by_allocation:
  assumes inv: "table_inv t bs"
    and run: "zc_hashtable_put tc pc t (Some k) v = Some (rc, t')" and rc: "rc \<noteq> 0"
  shows "zc_hashtable_get_entry t (Some k) = Some None \<and>
         (pc = None \<or> \<not> tc \<and> real (nelem t) > real (tab_size t) * 1.3)"
proof -
  from get_entry_total [OF inv, of k] obtain r where r: "zc_hashtable_get_entry t (Some k) = Some r" ..
  show ?thesis
  proof (cases r)
    case (Some a)
    with r have f: "zc_hashtable_get_entry t (Some k) = Some (Some a)" by simp
    from put_update_table [OF inv f, of tc pc v] run rc show ?thesis by auto
  next
    case None
    with r have ab: "zc_hashtable_get_entry t (Some k) = Some None" by simp
    have "pc = None \<or> \<not> tc \<and> real (nelem t) > real (tab_size t) * 1.3"
    proof (rule ccontr)
      assume "\<not> (pc = None \<or> \<not> tc \<and> real (nelem t) > real (tab_size t) * 1.3)"
      then obtain a where pc: "pc = Some a"
        and tc: "tc \<or> \<not> real (nelem t) > real (tab_size t) * 1.3" by auto
      show False
      proof (cases "real (nelem t) > real (tab_size t) * 1.3")
        case True
        with tc have "tc" by simp
        from rehash_table [OF inv] obtain h' tb' where
          "zc_hashtable_rehash True t
             = Some (0, t\<lparr>ents := h', tab := tb', tab_size := 2 * tab_size t\<rparr>)" by blast
        with run True \<open>tc\<close> pc
        have "put_link a k v (t\<lparr>ents := h', tab := tb', tab_size := 2 * tab_size t\<rparr>)
            = Some (rc, t')"
          by (simp add: put_absent [OF ab])
        from put_link_rc [OF this] rc show False by simp
      next
        case False
        with run pc have "put_link a k v t = Some (rc, t')" by (simp add: put_absent [OF ab])
        from put_link_rc [OF this] rc show False by simp
      qed
    qed
    with ab show ?thesis by simp
  qed
qed

text \<open>
  C2, as amended. The table is well formed. Put allocates only when its scan of
  the bucket of \<open>k\<close>, which is the scan of GetEntry, finds no entry; this is so
  in particular when no entry of the table holds a match for \<open>k\<close>. In this case:
  if the load test asks for a rehash and the allocation of the new bucket array
  fails, Put returns -1 and the table is exactly as it was. If the load test asks
  for no rehash and the allocation of the entry fails, Put returns -1 and the
  table is exactly as it was. If the load test asks for a rehash, the bucket array
  is allocated and the allocation of the entry fails, Put returns -1 with the table
  rehashed: no entry is added and the count is unchanged, every entry keeps its
  hash, key and value and no destructor is called, but the capacity has doubled and
  the chains are the relinked ones. A Put of a key returns a code other than 0
  in these cases only.
\<close>

theorem put_allocation_failure:
  assumes "table_inv t bs"
  shows "((\<forall>b\<in>set (concat bs). \<not> key_matches t k b) \<longrightarrow>
            zc_hashtable_get_entry t (Some k) = Some None) \<and>
         (zc_hashtable_get_entry t (Some k) = Some None \<and>
          real (nelem t) > real (tab_size t) * 1.3 \<longrightarrow>
            zc_hashtable_put False p_calloc t (Some k) v = Some (- 1, t)) \<and>
         (zc_hashtable_get_entry t (Some k) = Some None \<and>
          \<not> real (nelem t) > real (tab_size t) * 1.3 \<longrightarrow>
            zc_hashtable_put tab_calloc None t (Some k) v = Some (- 1, t)) \<and>
         (zc_hashtable_get_entry t (Some k) = Some None \<and>
          real (nelem t) > real (tab_size t) * 1.3 \<longrightarrow>
            (\<exists>t'. zc_hashtable_put True None t (Some k) v = Some (- 1, t') \<and>
               tab_size t' = 2 * tab_size t \<and> nelem t' = nelem t \<and>
               table_inv t' (rehashed_chains t bs) \<and>
               set (concat (rehashed_chains t bs)) = set (concat bs) \<and>
               (\<forall>x. same_payload (ents t x) (ents t' x)) \<and>
               del_log t' = del_log t)) \<and>
         (\<forall>rc t'. zc_hashtable_put tab_calloc p_calloc t (Some k) v = Some (rc, t') \<longrightarrow>
            rc \<noteq> 0 \<longrightarrow>
            zc_hashtable_get_entry t (Some k) = Some None \<and>
            (p_calloc = None \<or> \<not> tab_calloc \<and> real (nelem t) > real (tab_size t) * 1.3))"
proof (intro conjI impI allI)
  from assms have n: "0 < tab_size t" by (simp add: table_inv_def bucket_chains_def)
  {
    assume "\<forall>b\<in>set (concat bs). \<not> key_matches t k b"
    then show "zc_hashtable_get_entry t (Some k) = Some None"
      by (rule absent_not_found [OF assms])
  }
  {
    assume "zc_hashtable_get_entry t (Some k) = Some None \<and>
      real (nelem t) > real (tab_size t) * 1.3"
    then have ab: "zc_hashtable_get_entry t (Some k) = Some None"
      and thr: "real (nelem t) > real (tab_size t) * 1.3" by simp_all
    show "zc_hashtable_put False p_calloc t (Some k) v = Some (- 1, t)"
      by (rule put_rehash_alloc_fails [OF ab thr])
    from put_entry_alloc_fails_after_rehash [OF assms ab thr, of v]
    obtain h' tb' where f: "zc_hashtable_put True None t (Some k) v
         = Some (- 1, t\<lparr>ents := h', tab := tb', tab_size := 2 * tab_size t\<rparr>)"
      "table_inv (t\<lparr>ents := h', tab := tb', tab_size := 2 * tab_size t\<rparr>) (rehashed_chains t bs)"
      "\<forall>x. same_payload (ents t x) (h' x)" by blast
    from f set_rehashed_chains [OF n, of bs]
    show "\<exists>t'. zc_hashtable_put True None t (Some k) v = Some (- 1, t') \<and>
        tab_size t' = 2 * tab_size t \<and> nelem t' = nelem t \<and>
        table_inv t' (rehashed_chains t bs) \<and>
        set (concat (rehashed_chains t bs)) = set (concat bs) \<and>
        (\<forall>x. same_payload (ents t x) (ents t' x)) \<and>
        del_log t' = del_log t"
      by (intro exI [of _ "t\<lparr>ents := h', tab := tb', tab_size := 2 * tab_size t\<rparr>"]) simp
  }
  {
    assume "zc_hashtable_get_entry t (Some k) = Some None \<and>
      \<not> real (nelem t) > real (tab_size t) * 1.3"
    then have ab: "zc_hashtable_get_entry t (Some k) = Some None"
      and nthr: "\<not> real (nelem t) > real (tab_size t) * 1.3" by simp_all
    show "zc_hashtable_put tab_calloc None t (Some k) v = Some (- 1, t)"
      by (rule put_entry_alloc_fails [OF ab nthr])
  }
  {
    fix rc t'
    assume run: "zc_hashtable_put tab_calloc p_calloc t (Some k) v = Some (rc, t')" "rc \<noteq> 0"
    from put_fails_only_by_allocation [OF assms run]
    show "zc_hashtable_get_entry t (Some k) = Some None"
      and "p_calloc = None \<or> \<not> tab_calloc \<and> real (nelem t) > real (tab_size t) * 1.3"
      by simp_all
  }
qed

theorem put_allocation_failure_witness:
  "zc_hashtable_put False (Some 3) (nat_table 1 [(0, 10), (2, 12)]) (Some 4) (Some 14)
     = Some (- 1, nat_table 1 [(0, 10), (2, 12)]) \<and>
   zc_hashtable_put True None (nat_table 4 [(0, 10), (1, 11)]) (Some 6) (Some 16)
     = Some (- 1, nat_table 4 [(0, 10), (1, 11)]) \<and>
   (\<exists>t'. zc_hashtable_put True None (nat_table 1 [(0, 10), (2, 12)]) (Some 4) (Some 14)
            = Some (- 1, t') \<and>
      tab_size t' = 2 \<and> nelem t' = 2 \<and> table_inv t' [[1, 2], []])"
proof -
  let ?t = "nat_table 1 [(0, 10), (2, 12)]"
  let ?u = "nat_table 4 [(0, 10), (1, 11)]"
  have 1: "table_inv ?t [[2, 1]]" by code_simp
  have 2: "\<forall>b\<in>set (concat [[2, 1 :: nat]]). \<not> key_matches ?t 4 b" by code_simp
  have 3: "nelem ?t = 2" "tab_size ?t = 1" "rehashed_chains ?t [[2, 1]] = [[1, 2], []]"
    by code_simp+
  have thr: "real (nelem ?t) > real (tab_size ?t) * 1.3" unfolding 3(1,2) by simp
  have u1: "table_inv ?u [[1], [2], [], []]" by code_simp
  have u2: "\<forall>b\<in>set (concat [[1], [2], [], [] :: nat list]). \<not> key_matches ?u 6 b" by code_simp
  have u3: "nelem ?u = 2" "tab_size ?u = 4" by code_simp+
  have nthr: "\<not> real (nelem ?u) > real (tab_size ?u) * 1.3" unfolding u3 by simp
  note th = put_allocation_failure [OF 1, of 4 "Some 3" "Some 14" True, unfolded 3(3)]
  note tu = put_allocation_failure [OF u1, of 6 "Some 3" "Some 16" True]
  from th 2 have ab: "zc_hashtable_get_entry ?t (Some 4) = Some None" by blast
  from tu u2 have ub: "zc_hashtable_get_entry ?u (Some 6) = Some None" by blast
  from th ab thr have A: "zc_hashtable_put False (Some 3) ?t (Some 4) (Some 14) = Some (- 1, ?t)"
    by blast
  from tu ub nthr have B: "zc_hashtable_put True None ?u (Some 6) (Some 16) = Some (- 1, ?u)"
    by blast
  from th ab thr have "\<exists>t'. zc_hashtable_put True None ?t (Some 4) (Some 14) = Some (- 1, t') \<and>
      tab_size t' = 2 * tab_size ?t \<and> nelem t' = nelem ?t \<and> table_inv t' [[1, 2], []]"
    by blast
  then have C: "\<exists>t'. zc_hashtable_put True None ?t (Some 4) (Some 14) = Some (- 1, t') \<and>
      tab_size t' = 2 \<and> nelem t' = 2 \<and> table_inv t' [[1, 2], []]"
    unfolding 3(1,2) by simp
  from A B C show ?thesis by (intro conjI)
qed

text \<open>
  C2 as stated fails when the rehash has been made and the allocation of the entry
  fails afterwards. The table has one bucket and the two keys 0 and 2, so that the
  load test of the next Put asks for a rehash. Put of the new key 4, with the bucket
  array allocated and the entry not, returns -1 and leaves a table of capacity 2,
  with the count 2 as before; the entries, both in one chain before, are in
  bucket 0 in the reverse order.
\<close>

theorem put_entry_allocation_counterexample:
  "tab_size (nat_table 1 [(0, 10), (2, 12)]) = 1 \<and>
   tab (nat_table 1 [(0, 10), (2, 12)]) = [Some 2] \<and>
   map_option (\<lambda>(rc, t'). (rc, tab_size t', nelem t', tab t'))
     (zc_hashtable_put True None (nat_table 1 [(0, 10), (2, 12)]) (Some 4) (Some 14))
     = Some (- 1, 2, 2, [Some 1, None])"
  by code_simp

end
